theory Spec2Isabelle
  imports Complex_Main "HOL-Library.AList"
begin

section \<open>Tasks and task grouping (scripts/teams-helpers/task-grouping.js)\<close>

text \<open>
  A task object carries an id, a title and a list of dependency ids. Each of the three
  properties may be absent in JavaScript (\<open>undefined\<close>), which is \<open>None\<close> here.
\<close>

record task =
  task_id :: "string option"
  title :: "string option"
  dependencies :: "string list option"

text \<open>JavaScript truthiness of a string-or-undefined value: \<open>undefined\<close> and \<open>''\<close> are falsy.\<close>

definition truthy :: "string option \<Rightarrow> bool" where
  "truthy s = (case s of None \<Rightarrow> False | Some x \<Rightarrow> x \<noteq> [])"

text \<open>\<open>task.id || task.title\<close>: the key under which a task is stored in the graph.\<close>

definition taskKey :: "task \<Rightarrow> string option" where
  "taskKey t = (if truthy (task_id t) then task_id t else title t)"

text \<open>\<open>task.dependencies || []\<close>\<close>

definition depsOrEmpty :: "task \<Rightarrow> string list" where
  "depsOrEmpty t = (case dependencies t of None \<Rightarrow> [] | Some ds \<Rightarrow> ds)"

text \<open>
  A graph node, and the graph as a JavaScript \<open>Map\<close>: an association list in insertion
  order, where \<open>set\<close> on a present key replaces the value in place and \<open>set\<close> on a new key
  appends (\<open>AList.update\<close>), and \<open>get\<close> is \<open>map_of\<close>.
\<close>

record node =
  dependents :: "string option list"
  node_dependencies :: "string list"
  node_task :: task

type_synonym graph = "(string option \<times> node) list"

text \<open>First loop of \<open>buildDependencyGraph\<close>: one fresh node per task.\<close>

definition addNode :: "task \<Rightarrow> graph \<Rightarrow> graph" where
  "addNode t g =
     AList.update (taskKey t)
       \<lparr>dependents = [], node_dependencies = depsOrEmpty t, node_task = t\<rparr> g"

text \<open>Body of the inner \<open>forEach\<close>: \<open>depNode.dependents.push(taskId)\<close> when the node exists.\<close>

definition addDependent :: "string option \<Rightarrow> string \<Rightarrow> graph \<Rightarrow> graph" where
  "addDependent taskId depId g =
     (case map_of g (Some depId) of
        None \<Rightarrow> g
      | Some depNode \<Rightarrow>
          AList.update (Some depId) (depNode\<lparr>dependents := dependents depNode @ [taskId]\<rparr>) g)"

text \<open>Second loop: \<open>task.dependencies?.forEach(...)\<close> for every task.\<close>

definition populateDependents :: "task \<Rightarrow> graph \<Rightarrow> graph" where
  "populateDependents t g = fold (addDependent (taskKey t)) (depsOrEmpty t) g"

definition buildDependencyGraph :: "task list \<Rightarrow> graph" where
  "buildDependencyGraph tasks = fold populateDependents tasks (fold addNode tasks [])"

definition getDependentTasks :: "string option \<Rightarrow> graph \<Rightarrow> string option list" where
  "getDependentTasks taskId dependencyGraph =
     (case map_of dependencyGraph taskId of None \<Rightarrow> [] | Some n \<Rightarrow> dependents n)"

definition getDependencyTasks :: "string option \<Rightarrow> graph \<Rightarrow> string list" where
  "getDependencyTasks taskId dependencyGraph =
     (case map_of dependencyGraph taskId of None \<Rightarrow> [] | Some n \<Rightarrow> node_dependencies n)"

text \<open>
  \<open>groupTasksForTeams\<close>. The argument may be \<open>null\<close>/\<open>undefined\<close> (\<open>None\<close>); the early
  return carries no \<open>totalTasks\<close> and \<open>parallelizableTasks\<close> properties.
\<close>

record groups =
  independent :: "task list"
  dependent :: "task list"
  dependencyGraph :: graph
  maxParallel :: nat
  totalTasks :: "nat option"
  parallelizableTasks :: "nat option"

definition isIndependent :: "task \<Rightarrow> bool" where
  "isIndependent t = (case dependencies t of None \<Rightarrow> True | Some ds \<Rightarrow> length ds = 0)"

definition isDependent :: "task \<Rightarrow> bool" where
  "isDependent t = (case dependencies t of None \<Rightarrow> False | Some ds \<Rightarrow> length ds > 0)"

definition groupTasksForTeams :: "task list option \<Rightarrow> groups" where
  "groupTasksForTeams tasks =
     (case tasks of
        None \<Rightarrow> \<lparr>independent = [], dependent = [], dependencyGraph = [], maxParallel = 0,
                 totalTasks = None, parallelizableTasks = None\<rparr>
      | Some ts \<Rightarrow>
          if length ts = 0 then
            \<lparr>independent = [], dependent = [], dependencyGraph = [], maxParallel = 0,
             totalTasks = None, parallelizableTasks = None\<rparr>
          else
            (let independent = filter isIndependent ts;
                 dependent = filter isDependent ts;
                 dependencyGraph = buildDependencyGraph ts;
                 maxParallel = min (length independent) 5
             in \<lparr>independent = independent, dependent = dependent,
                 dependencyGraph = dependencyGraph, maxParallel = maxParallel,
                 totalTasks = Some (length ts),
                 parallelizableTasks = Some (length independent)\<rparr>))"

text \<open>\<open>String.prototype.toLowerCase\<close>, on ASCII text.\<close>

definition lowerChar :: "char \<Rightarrow> char" where
  "lowerChar c =
     (if of_char c \<ge> (65::nat) \<and> of_char c \<le> (90::nat) then char_of (of_char c + (32::nat)) else c)"

definition toLowerCase :: "string \<Rightarrow> string" where
  "toLowerCase s = map lowerChar s"

text \<open>Decimal rendering of a natural number, as a template literal does it.\<close>

fun String_nat :: "nat \<Rightarrow> string" where
  "String_nat n =
     (if n < 10 then [char_of (48 + n)]
      else String_nat (n div 10) @ [char_of (48 + n mod 10)])"

declare String_nat.simps [simp del]

record suggestion =
  count :: nat
  reason :: string

definition suggestTeammateCount :: "task list option \<Rightarrow> suggestion" where
  "suggestTeammateCount tasks =
     (let g = groupTasksForTeams tasks in
      if length (independent g) = 0 then
        \<lparr>count = 1, reason = ''All tasks have dependencies, sequential execution needed''\<rparr>
      else if length (independent g) = 1 then
        \<lparr>count = 1, reason = ''Only one independent task''\<rparr>
      else if length (independent g) \<le> 3 then
        \<lparr>count = length (independent g), reason = ''Small number of independent tasks''\<rparr>
      else
        \<lparr>count = maxParallel g,
         reason = ''Adaptive: '' @ String_nat (length (independent g))
                  @ '' independent tasks, capped at '' @ String_nat (maxParallel g)\<rparr>)"

text \<open>
  The task list a caller handed over, with the absent list read as the empty one, and the
  tasks of a list whose dependency set is empty (an absent dependency list declares none).
\<close>

definition taskList :: "task list option \<Rightarrow> task list" where
  "taskList tasks = (case tasks of None \<Rightarrow> [] | Some ts \<Rightarrow> ts)"

definition noDependencies :: "task list \<Rightarrow> task list" where
  "noDependencies ts = filter (\<lambda>t. set (depsOrEmpty t) = {}) ts"

text \<open>The tasks of the scenarios: ids \<open>1\<close> to \<open>4\<close> with the given dependency lists.\<close>

definition mkTask :: "string \<Rightarrow> string list \<Rightarrow> task" where
  "mkTask i ds = \<lparr>task_id = Some i, title = Some (''Task '' @ i), dependencies = Some ds\<rparr>"

section \<open>Task grouping: properties\<close>

lemma isIndependent_iff: "isIndependent t \<longleftrightarrow> set (depsOrEmpty t) = {}"
  by (simp add: isIndependent_def depsOrEmpty_def split: option.split)

lemma independent_groupTasksForTeams:
  "independent (groupTasksForTeams tasks) = noDependencies (taskList tasks)"
proof (cases tasks)
  case None
  then show ?thesis
    by (simp add: groupTasksForTeams_def taskList_def noDependencies_def)
next
  case (Some ts)
  have "filter isIndependent ts = noDependencies ts"
    unfolding noDependencies_def by (rule filter_cong) (simp_all add: isIndependent_iff)
  with Some show ?thesis
    by (cases ts) (simp_all add: groupTasksForTeams_def taskList_def Let_def noDependencies_def)
qed

lemma maxParallel_groupTasksForTeams:
  "maxParallel (groupTasksForTeams tasks) = min (length (noDependencies (taskList tasks))) 5"
proof (cases tasks)
  case None
  then show ?thesis
    by (simp add: groupTasksForTeams_def taskList_def noDependencies_def)
next
  case (Some ts)
  have "filter isIndependent ts = noDependencies ts"
    unfolding noDependencies_def by (rule filter_cong) (simp_all add: isIndependent_iff)
  with Some show ?thesis
    by (cases ts) (simp_all add: groupTasksForTeams_def taskList_def Let_def noDependencies_def)
qed

text \<open>
  C7. For every task list (absent, empty or not), the independent set returned by
  \<open>groupTasksForTeams\<close> is exactly the sublist of the tasks whose dependency set is empty,
  and \<open>maxParallel\<close> is the minimum of its length and 5; ten or more independent tasks
  give \<open>maxParallel = 5\<close>.
\<close>

theorem groupTasksForTeams_independent_maxParallel:
  "independent (groupTasksForTeams tasks) = noDependencies (taskList tasks)
   \<and> maxParallel (groupTasksForTeams tasks) = min (length (noDependencies (taskList tasks))) 5
   \<and> (10 \<le> length (noDependencies (taskList tasks))
        \<longrightarrow> maxParallel (groupTasksForTeams tasks) = 5)"
  by (simp add: independent_groupTasksForTeams maxParallel_groupTasksForTeams)

definition tenIndependent :: "task list" where
  "tenIndependent = map (\<lambda>i. mkTask (String_nat i) []) [1..<11]"

theorem groupTasksForTeams_ten_independent_witness:
  "10 \<le> length (noDependencies (taskList (Some tenIndependent)))
   \<and> maxParallel (groupTasksForTeams (Some tenIndependent)) = 5"
  using groupTasksForTeams_independent_maxParallel [of "Some tenIndependent"]
  by (simp add: taskList_def noDependencies_def mkTask_def depsOrEmpty_def tenIndependent_def
      filter_map o_def)

lemma rationale_labels:
  "toLowerCase ''All tasks have dependencies, sequential execution needed'' =
     ''all tasks have dependencies, sequential execution needed''"
  "toLowerCase ''Only one independent task'' = ''only one independent task''"
  "toLowerCase ''Small number of independent tasks'' = ''small number of independent tasks''"
  by code_simp+

text \<open>
  C8. \<open>suggestTeammateCount\<close> follows the table on the number \<open>n\<close> of independent tasks:
  \<open>n = 0\<close> and \<open>n = 1\<close> suggest 1, \<open>n = 2\<close> and \<open>n = 3\<close> suggest \<open>n\<close>, and \<open>n \<ge> 4\<close> suggests
  \<open>maxParallel = min n 5\<close>, each with its rationale: the three fixed labels of the table
  (which the code writes with a capital first letter), and for \<open>n \<ge> 4\<close> the adaptive one
  that names \<open>n\<close> and the cap reached.
\<close>

theorem suggestTeammateCount_table:
  fixes tasks :: "task list option"
  defines "n \<equiv> length (noDependencies (taskList tasks))"
  shows "(n = 0 \<longrightarrow> count (suggestTeammateCount tasks) = 1
            \<and> toLowerCase (reason (suggestTeammateCount tasks)) =
                ''all tasks have dependencies, sequential execution needed'')
       \<and> (n = 1 \<longrightarrow> count (suggestTeammateCount tasks) = 1
            \<and> toLowerCase (reason (suggestTeammateCount tasks)) = ''only one independent task'')
       \<and> (n = 2 \<or> n = 3 \<longrightarrow> count (suggestTeammateCount tasks) = n
            \<and> toLowerCase (reason (suggestTeammateCount tasks)) =
                ''small number of independent tasks'')
       \<and> (4 \<le> n \<longrightarrow> suggestTeammateCount tasks =
            \<lparr>count = min n 5,
             reason = ''Adaptive: '' @ String_nat n @ '' independent tasks, capped at ''
                      @ String_nat (min n 5)\<rparr>)"
  unfolding n_def suggestTeammateCount_def Let_def
    independent_groupTasksForTeams maxParallel_groupTasksForTeams
  by (auto simp: rationale_labels)

theorem suggestTeammateCount_scenario_witness:
  "length (noDependencies (taskList
       (Some [mkTask ''1'' [], mkTask ''2'' [], mkTask ''3'' [''1'']]))) = 2
   \<and> count (suggestTeammateCount (Some [mkTask ''1'' [], mkTask ''2'' [], mkTask ''3'' [''1'']])) = 2
   \<and> toLowerCase (reason (suggestTeammateCount
         (Some [mkTask ''1'' [], mkTask ''2'' [], mkTask ''3'' [''1'']]))) =
       ''small number of independent tasks''"
  using suggestTeammateCount_table
    [of "Some [mkTask ''1'' [], mkTask ''2'' [], mkTask ''3'' [''1'']]"]
  by (simp add: taskList_def noDependencies_def mkTask_def depsOrEmpty_def)

section \<open>The dependency graph: reverse edges\<close>

text \<open>
  The last task of a list stored under a key (a later \<open>graph.set\<close> replaces the node of
  an earlier task with the same key), the node the first loop creates, and the list of
  keys the second loop pushes to the node of \<open>k\<close>: one per declaration of \<open>k\<close>, in
  task order.
\<close>

primrec lastWithKey :: "string option \<Rightarrow> task list \<Rightarrow> task option" where
  "lastWithKey k [] = None"
| "lastWithKey k (t # ts) =
     (case lastWithKey k ts of
        Some t' \<Rightarrow> Some t'
      | None \<Rightarrow> if taskKey t = k then Some t else None)"

definition freshNode :: "task \<Rightarrow> node" where
  "freshNode t = \<lparr>dependents = [], node_dependencies = depsOrEmpty t, node_task = t\<rparr>"

definition dependentsOf :: "task list \<Rightarrow> string option \<Rightarrow> string option list" where
  "dependentsOf ts k =
     concat (map (\<lambda>t. map (\<lambda>d. taskKey t) (filter (\<lambda>d. Some d = k) (depsOrEmpty t))) ts)"

lemma lastWithKey_None_iff: "lastWithKey k ts = None \<longleftrightarrow> k \<notin> taskKey ` set ts"
  by (induction ts) (auto split: option.splits)

lemma lastWithKey_SomeD: "lastWithKey k ts = Some t \<Longrightarrow> t \<in> set ts \<and> taskKey t = k"
  by (induction ts) (auto split: option.splits if_splits)

lemma lastWithKey_distinct:
  "distinct (map taskKey ts) \<Longrightarrow> t \<in> set ts \<Longrightarrow> lastWithKey (taskKey t) ts = Some t"
proof (induction ts)
  case Nil
  then show ?case by simp
next
  case (Cons a ts)
  show ?case
  proof (cases "t = a")
    case True
    from Cons.prems have "taskKey a \<notin> taskKey ` set ts" by simp
    then have "lastWithKey (taskKey a) ts = None" by (simp add: lastWithKey_None_iff)
    with True show ?thesis by simp
  next
    case False
    with Cons have "lastWithKey (taskKey t) ts = Some t" by simp
    then show ?thesis by simp
  qed
qed

lemma map_of_addNode:
  "map_of (addNode t g) k = (if k = taskKey t then Some (freshNode t) else map_of g k)"
  by (simp add: addNode_def update_conv' freshNode_def)

lemma map_of_fold_addNode:
  "map_of (fold addNode ts g) k =
     (case lastWithKey k ts of Some t \<Rightarrow> Some (freshNode t) | None \<Rightarrow> map_of g k)"
proof (induction ts arbitrary: g)
  case Nil
  show ?case by simp
next
  case (Cons t ts)
  show ?case
    by (auto simp: Cons.IH map_of_addNode split: option.split)
qed

lemma map_of_addDependent:
  "map_of (addDependent tid d g) k =
     map_option (\<lambda>n. if k = Some d then n\<lparr>dependents := dependents n @ [tid]\<rparr> else n) (map_of g k)"
  by (cases "map_of g k") (auto simp: addDependent_def update_conv' split: option.split)

lemma map_of_fold_addDependent:
  "map_of (fold (addDependent tid) ds g) k =
     map_option (\<lambda>n. n\<lparr>dependents := dependents n @ map (\<lambda>d. tid) (filter (\<lambda>d. Some d = k) ds)\<rparr>)
       (map_of g k)"
proof (induction ds arbitrary: g)
  case Nil
  show ?case by (simp add: option.map_ident)
next
  case (Cons d ds)
  show ?case
    by (cases "map_of g k") (simp_all add: Cons.IH map_of_addDependent)
qed

lemma map_of_populateDependents:
  "map_of (populateDependents t g) k =
     map_option (\<lambda>n. n\<lparr>dependents := dependents n
         @ map (\<lambda>d. taskKey t) (filter (\<lambda>d. Some d = k) (depsOrEmpty t))\<rparr>) (map_of g k)"
  by (simp add: populateDependents_def map_of_fold_addDependent)

lemma map_of_fold_populateDependents:
  "map_of (fold populateDependents ts g) k =
     map_option (\<lambda>n. n\<lparr>dependents := dependents n @ dependentsOf ts k\<rparr>) (map_of g k)"
proof (induction ts arbitrary: g)
  case Nil
  show ?case by (simp add: dependentsOf_def option.map_ident)
next
  case (Cons t ts)
  show ?case
    by (cases "map_of g k")
      (simp_all add: Cons.IH map_of_populateDependents dependentsOf_def)
qed

lemma map_of_buildDependencyGraph:
  "map_of (buildDependencyGraph ts) k =
     map_option (\<lambda>t. \<lparr>dependents = dependentsOf ts k, node_dependencies = depsOrEmpty t,
                       node_task = t\<rparr>) (lastWithKey k ts)"
  by (simp add: buildDependencyGraph_def map_of_fold_populateDependents map_of_fold_addNode
      freshNode_def split: option.split)

lemma getDependentTasks_buildDependencyGraph:
  "getDependentTasks k (buildDependencyGraph ts) =
     (if k \<in> taskKey ` set ts then dependentsOf ts k else [])"
  using lastWithKey_None_iff [of k ts]
  by (auto simp: getDependentTasks_def map_of_buildDependencyGraph split: option.split)

lemma set_dependentsOf:
  "set (dependentsOf ts k) = {taskKey t |t. t \<in> set ts \<and> k \<in> Some ` set (depsOrEmpty t)}"
  by (auto simp: dependentsOf_def)

definition diamond :: "task list" where
  "diamond = [mkTask ''1'' [], mkTask ''2'' [''1''], mkTask ''3'' [''1''],
              mkTask ''4'' [''2'', ''3'']]"

definition sameIdTwice :: "task list" where
  "sameIdTwice = [mkTask ''1'' [], mkTask ''1'' [''2'']]"

lemma taskKey_mkTask [simp]: "taskKey (mkTask i ds) = (if i = [] then Some ''Task '' else Some i)"
  by (simp add: taskKey_def mkTask_def truthy_def)

lemma depsOrEmpty_mkTask [simp]: "depsOrEmpty (mkTask i ds) = ds"
  by (simp add: depsOrEmpty_def mkTask_def)

text \<open>
  C10 (amended). For every task list: \<open>tid\<close> is in the dependents of node \<open>d\<close> exactly
  when \<open>d\<close> is the key of a task and a task with key \<open>tid\<close> declares \<open>d\<close>; a declared
  dependency that matches no task has no node and no dependents; every task has a node
  under its key, and that node holds the declared dependencies of the last task with that
  key, which is the task itself when the keys of the list are pairwise distinct.
\<close>

theorem buildDependencyGraph_reverse_edges:
  fixes ts :: "task list"
  defines "G \<equiv> buildDependencyGraph ts"
  shows "(tid \<in> set (getDependentTasks d G) \<longleftrightarrow>
            d \<in> taskKey ` set ts
            \<and> (\<exists>t \<in> set ts. taskKey t = tid \<and> d \<in> Some ` set (depsOrEmpty t)))
       \<and> (Some x \<notin> taskKey ` set ts \<longrightarrow>
            map_of G (Some x) = None \<and> getDependentTasks (Some x) G = [])
       \<and> (\<forall>t \<in> set ts. \<exists>n. map_of G (taskKey t) = Some n
              \<and> lastWithKey (taskKey t) ts = Some (node_task n)
              \<and> node_dependencies n = depsOrEmpty (node_task n))
       \<and> (distinct (map taskKey ts) \<longrightarrow>
            (\<forall>t \<in> set ts. \<exists>n. map_of G (taskKey t) = Some n
              \<and> node_task n = t \<and> node_dependencies n = depsOrEmpty t))"
proof -
  have a: "tid \<in> set (getDependentTasks d G) \<longleftrightarrow>
            d \<in> taskKey ` set ts
            \<and> (\<exists>t \<in> set ts. taskKey t = tid \<and> d \<in> Some ` set (depsOrEmpty t))"
    unfolding G_def by (auto simp: getDependentTasks_buildDependencyGraph set_dependentsOf)
  have b: "Some x \<notin> taskKey ` set ts \<longrightarrow>
            map_of G (Some x) = None \<and> getDependentTasks (Some x) G = []"
    unfolding G_def
    by (simp add: getDependentTasks_buildDependencyGraph map_of_buildDependencyGraph
        lastWithKey_None_iff)
  have c: "\<exists>n. map_of G (taskKey t) = Some n
              \<and> lastWithKey (taskKey t) ts = Some (node_task n)
              \<and> node_dependencies n = depsOrEmpty (node_task n)" if "t \<in> set ts" for t
  proof -
    from that have "lastWithKey (taskKey t) ts \<noteq> None"
      by (simp add: lastWithKey_None_iff)
    then obtain t' where "lastWithKey (taskKey t) ts = Some t'" by blast
    then show ?thesis
      unfolding G_def by (simp add: map_of_buildDependencyGraph)
  qed
  have d: "\<exists>n. map_of G (taskKey t) = Some n \<and> node_task n = t
              \<and> node_dependencies n = depsOrEmpty t"
    if "distinct (map taskKey ts)" "t \<in> set ts" for t
    unfolding G_def using lastWithKey_distinct [OF that]
    by (simp add: map_of_buildDependencyGraph)
  from a b c d show ?thesis by blast
qed

theorem buildDependencyGraph_reverse_edges_witness:
  "Some ''2'' \<in> set (getDependentTasks (Some ''1'') (buildDependencyGraph diamond))
   \<and> Some ''9'' \<notin> taskKey ` set diamond
   \<and> map_of (buildDependencyGraph diamond) (Some ''9'') = None
   \<and> distinct (map taskKey diamond)
   \<and> mkTask ''4'' [''2'', ''3''] \<in> set diamond
   \<and> (\<exists>n. map_of (buildDependencyGraph diamond) (Some ''4'') = Some n
          \<and> node_task n = mkTask ''4'' [''2'', ''3''] \<and> node_dependencies n = [''2'', ''3''])"
  using buildDependencyGraph_reverse_edges [of "Some ''2''" "Some ''1''" diamond "''9''"]
  by (simp add: diamond_def)

text \<open>
  C10 as stated fails for two tasks with one id: the node of the first holds the
  dependency list of the second.
\<close>

theorem buildDependencyGraph_same_id_counterexample:
  "\<not> (\<forall>t \<in> set sameIdTwice. \<exists>n.
        map_of (buildDependencyGraph sameIdTwice) (taskKey t) = Some n
        \<and> node_dependencies n = depsOrEmpty t)"
  by (simp add: sameIdTwice_def map_of_buildDependencyGraph)

section \<open>Execution order and validation (scripts/teams-helpers/task-grouping.js)\<close>

text \<open>
  The \<open>inDegree\<close> map holds JavaScript numbers; \<open>None\<close> is \<open>NaN\<close>, the value of
  \<open>undefined - 1\<close> when \<open>inDegree.get\<close> finds no entry.
\<close>

type_synonym degrees = "(string option \<times> int option) list"

definition setInDegree :: "task \<Rightarrow> degrees \<Rightarrow> degrees" where
  "setInDegree t inDegree =
     AList.update (taskKey t) (Some (int (length (depsOrEmpty t)))) inDegree"

text \<open>\<open>inDegree.forEach((degree, taskId) => { if (degree === 0) queue.push(taskId) })\<close>\<close>

definition zeroInDegree :: "degrees \<Rightarrow> string option list" where
  "zeroInDegree inDegree = map fst (filter (\<lambda>(taskId, degree). degree = Some 0) inDegree)"

text \<open>The body of \<open>dependents.forEach\<close>, on the pair of the map and the queue.\<close>

definition reduceInDegree ::
  "string option \<Rightarrow> degrees \<times> string option list \<Rightarrow> degrees \<times> string option list" where
  "reduceInDegree depId st =
     (case st of (inDegree, queue) \<Rightarrow>
        let newDegree = (case map_of inDegree depId of
                           Some (Some currentDegree) \<Rightarrow> Some (currentDegree - 1)
                         | _ \<Rightarrow> None)
        in (AList.update depId newDegree inDegree,
            if newDegree = Some 0 then queue @ [depId] else queue))"

text \<open>The entries of the map that are still positive: what the loop can yet push.\<close>

definition positive :: "degrees \<Rightarrow> string option set" where
  "positive inDegree = {k. \<exists>d. map_of inDegree k = Some (Some d) \<and> 1 \<le> d}"

lemma finite_positive: "finite (positive inDegree)"
proof (rule finite_subset)
  show "positive inDegree \<subseteq> dom (map_of inDegree)"
    by (auto simp: positive_def)
  show "finite (dom (map_of inDegree))"
    by (rule finite_dom_map_of)
qed

lemma reduceInDegree_measure:
  assumes "reduceInDegree depId (inDegree, queue) = (inDegree', queue')"
  shows "length queue' + card (positive inDegree') = length queue + card (positive inDegree)"
proof (cases "map_of inDegree depId = Some (Some 1)")
  case True
  from assms True have i': "inDegree' = AList.update depId (Some 0) inDegree"
    and q': "queue' = queue @ [depId]"
    by (auto simp: reduceInDegree_def Let_def)
  have "positive inDegree' = positive inDegree - {depId}"
    by (auto simp: positive_def i' update_conv')
  moreover have "depId \<in> positive inDegree"
    using True by (simp add: positive_def)
  ultimately have "card (positive inDegree') = card (positive inDegree) - 1"
    by (simp add: finite_positive)
  moreover have "card (positive inDegree) > 0"
    using \<open>depId \<in> positive inDegree\<close> finite_positive [of inDegree]
    by (auto simp: card_gt_0_iff)
  ultimately show ?thesis by (simp add: q')
next
  case False
  then have q': "queue' = queue"
    using assms by (auto simp: reduceInDegree_def Let_def split: option.splits if_splits)
  have "positive inDegree' = positive inDegree"
    using assms False
    by (auto simp: reduceInDegree_def Let_def positive_def update_conv'
        split: option.splits if_splits)
  then show ?thesis by (simp add: q')
qed

lemma fold_reduceInDegree_measure:
  "fold reduceInDegree ds (inDegree, queue) = (inDegree', queue') \<Longrightarrow>
   length queue' + card (positive inDegree') = length queue + card (positive inDegree)"
proof (induction ds arbitrary: inDegree queue)
  case Nil
  then show ?case by simp
next
  case (Cons d ds)
  obtain i1 q1 where s: "reduceInDegree d (inDegree, queue) = (i1, q1)"
    by (cases "reduceInDegree d (inDegree, queue)")
  from Cons.prems have "fold reduceInDegree ds (i1, q1) = (inDegree', queue')"
    by (simp add: s)
  from Cons.IH [OF this] reduceInDegree_measure [OF s] show ?case by simp
qed

text \<open>The \<open>while (queue.length > 0)\<close> loop; \<open>queue.shift()\<close> takes the head.\<close>

function processQueue ::
  "graph \<Rightarrow> degrees \<Rightarrow> string option list \<Rightarrow> string option list \<Rightarrow> string option list" where
  "processQueue g inDegree [] order = order"
| "processQueue g inDegree (current # rest) order =
     (case fold reduceInDegree (getDependentTasks current g) (inDegree, rest) of
        (inDegree', queue') \<Rightarrow> processQueue g inDegree' queue' (order @ [current]))"
  by pat_completeness auto
termination
proof (relation "measure (\<lambda>(g, inDegree, queue, order). length queue + card (positive inDegree))",
    goal_cases)
  case 1
  show ?case by simp
next
  case 2
  then show ?case
    by (auto dest: fold_reduceInDegree_measure [OF sym])
qed

declare processQueue.simps [simp del]

definition calculateExecutionOrder :: "task list \<Rightarrow> graph \<Rightarrow> string option list" where
  "calculateExecutionOrder tasks g =
     (let inDegree = fold setInDegree tasks [];
          queue = zeroInDegree inDegree
      in processQueue g inDegree queue [])"

record validation =
  valid :: bool
  cycleDetected :: bool

definition validateDependencies :: "task list \<Rightarrow> validation" where
  "validateDependencies tasks =
     (let g = buildDependencyGraph tasks;
          order = calculateExecutionOrder tasks g
      in \<lparr>valid = (length order = length tasks),
          cycleDetected = (length order \<noteq> length tasks)\<rparr>)"

section \<open>The inner loop\<close>

text \<open>
  The keys of a list of dependents whose degree reaches zero while the list is processed:
  the degree was positive and the key occurs at least that often.
\<close>

definition hitsZero :: "degrees \<Rightarrow> string option list \<Rightarrow> string option set" where
  "hitsZero inDegree ds =
     {k \<in> set ds. \<exists>v. map_of inDegree k = Some (Some v) \<and> 1 \<le> v \<and> v \<le> int (count_list ds k)}"

definition numeric :: "degrees \<Rightarrow> string option set \<Rightarrow> bool" where
  "numeric inDegree ks = (\<forall>k \<in> ks. \<exists>v. map_of inDegree k = Some (Some v))"

lemma reduceInDegree_numeric:
  assumes "map_of inDegree d = Some (Some v)"
  shows "reduceInDegree d (inDegree, q) =
           (AList.update d (Some (v - 1)) inDegree, if v = 1 then q @ [d] else q)"
  using assms by (simp add: reduceInDegree_def Let_def)

lemma numeric_update:
  "numeric inDegree ks \<Longrightarrow> numeric (AList.update d (Some v) inDegree) ks"
  by (auto simp: numeric_def update_conv')

lemma map_of_fold_reduceInDegree:
  assumes "numeric inDegree (set ds)"
  shows "map_of (fst (fold reduceInDegree ds (inDegree, q))) k =
           map_option (map_option (\<lambda>v. v - int (count_list ds k))) (map_of inDegree k)"
  using assms
proof (induction ds arbitrary: inDegree q)
  case Nil
  show ?case by (simp add: option.map_ident)
next
  case (Cons d ds)
  from Cons.prems obtain v where v: "map_of inDegree d = Some (Some v)"
    by (auto simp: numeric_def)
  from Cons.prems have "numeric inDegree (set ds)"
    by (simp add: numeric_def)
  then have n: "numeric (AList.update d (Some (v - 1)) inDegree) (set ds)"
    by (rule numeric_update)
  have step: "fold reduceInDegree (d # ds) (inDegree, q) =
      fold reduceInDegree ds (AList.update d (Some (v - 1)) inDegree, if v = 1 then q @ [d] else q)"
    by (simp add: reduceInDegree_numeric [OF v])
  show ?case
    unfolding step Cons.IH [OF n, of "if v = 1 then q @ [d] else q"]
    by (cases "k = d") (simp_all add: update_conv' v)
qed

lemma hitsZero_Cons:
  assumes v: "map_of inDegree d = Some (Some v)"
  shows "hitsZero inDegree (d # ds) =
           (if v = 1 then {d} else {}) \<union> hitsZero (AList.update d (Some (v - 1)) inDegree) ds"
proof -
  have "k \<in> hitsZero inDegree (d # ds) \<longleftrightarrow>
        k \<in> (if v = 1 then {d} else {}) \<union> hitsZero (AList.update d (Some (v - 1)) inDegree) ds"
    for k
  proof (cases "k = d")
    case True
    have "count_list ds d = 0 \<longleftrightarrow> d \<notin> set ds"
      by (simp add: count_list_0_iff)
    then show ?thesis
      using v True by (auto simp: hitsZero_def update_conv')
  next
    case False
    then show ?thesis
      by (auto simp: hitsZero_def update_conv')
  qed
  then show ?thesis by blast
qed

lemma snd_fold_reduceInDegree:
  assumes "numeric inDegree (set ds)"
  shows "\<exists>new. snd (fold reduceInDegree ds (inDegree, q)) = q @ new \<and> distinct new
           \<and> set new = hitsZero inDegree ds"
  using assms
proof (induction ds arbitrary: inDegree q)
  case Nil
  show ?case by (simp add: hitsZero_def)
next
  case (Cons d ds)
  from Cons.prems obtain v where v: "map_of inDegree d = Some (Some v)"
    by (auto simp: numeric_def)
  let ?i1 = "AList.update d (Some (v - 1)) inDegree"
  from Cons.prems have "numeric inDegree (set ds)"
    by (simp add: numeric_def)
  then have n: "numeric ?i1 (set ds)"
    by (rule numeric_update)
  from Cons.IH [OF n, of "if v = 1 then q @ [d] else q"]
  obtain new where new: "snd (fold reduceInDegree ds (?i1, if v = 1 then q @ [d] else q))
      = (if v = 1 then q @ [d] else q) @ new" "distinct new" "set new = hitsZero ?i1 ds"
    by blast
  have notin: "d \<notin> hitsZero ?i1 ds" if "v = 1"
    using that by (simp add: hitsZero_def update_conv')
  show ?case
  proof (intro exI conjI)
    have step: "fold reduceInDegree (d # ds) (inDegree, q) =
        fold reduceInDegree ds (?i1, if v = 1 then q @ [d] else q)"
      by (simp add: reduceInDegree_numeric [OF v])
    show "snd (fold reduceInDegree (d # ds) (inDegree, q)) = q @ ((if v = 1 then [d] else []) @ new)"
      unfolding step new(1) by simp
    show "distinct ((if v = 1 then [d] else []) @ new)"
      using new(2,3) notin by simp
    show "set ((if v = 1 then [d] else []) @ new) = hitsZero inDegree (d # ds)"
      by (simp add: hitsZero_Cons [OF v] new(3))
  qed
qed

section \<open>Invariants of the queue loop\<close>

text \<open>
  The number of declared dependencies of a task that are not yet in the order, and the
  property of an order that every task in it comes after all its declared dependencies.
\<close>

definition remaining :: "string option list \<Rightarrow> task \<Rightarrow> nat" where
  "remaining order t = length (filter (\<lambda>d. Some d \<notin> set order) (depsOrEmpty t))"

definition dependenciesFirst :: "task list \<Rightarrow> string option list \<Rightarrow> bool" where
  "dependenciesFirst ts order =
     (\<forall>i < length order. \<forall>t \<in> set ts. taskKey t = order ! i \<longrightarrow>
        (\<forall>d \<in> set (depsOrEmpty t). Some d \<in> set (take i order)))"

lemma dependenciesFirst_Nil: "dependenciesFirst ts []"
  by (simp add: dependenciesFirst_def)

lemma dependenciesFirst_snoc:
  assumes "dependenciesFirst ts order"
    and "\<forall>t \<in> set ts. taskKey t = c \<longrightarrow> (\<forall>d \<in> set (depsOrEmpty t). Some d \<in> set order)"
  shows "dependenciesFirst ts (order @ [c])"
  unfolding dependenciesFirst_def
proof (intro allI impI ballI)
  fix i t d
  assume i: "i < length (order @ [c])" and t: "t \<in> set ts" "taskKey t = (order @ [c]) ! i"
    and d: "d \<in> set (depsOrEmpty t)"
  show "Some d \<in> set (take i (order @ [c]))"
  proof (cases "i < length order")
    case True
    with assms(1) t d have "Some d \<in> set (take i order)"
      by (simp add: dependenciesFirst_def nth_append)
    with True show ?thesis by simp
  next
    case False
    with i have "i = length order" by simp
    with assms(2) t d show ?thesis by simp
  qed
qed

lemma remaining_zero_iff:
  "remaining order t = 0 \<longleftrightarrow> (\<forall>d \<in> set (depsOrEmpty t). Some d \<in> set order)"
  by (auto simp: remaining_def filter_empty_conv)

lemma remaining_Nil: "remaining [] t = length (depsOrEmpty t)"
  by (simp add: remaining_def)

lemma filter_split_count:
  "c \<notin> set order \<Longrightarrow>
   length (filter (\<lambda>d. Some d \<notin> set (order @ [c])) xs) + length (filter (\<lambda>d. Some d = c) xs)
     = length (filter (\<lambda>d. Some d \<notin> set order) xs)"
  by (induction xs) auto

lemma remaining_snoc:
  "c \<notin> set order \<Longrightarrow>
   int (remaining (order @ [c]) t) =
     int (remaining order t) - int (length (filter (\<lambda>d. Some d = c) (depsOrEmpty t)))"
  using filter_split_count [of c order "depsOrEmpty t"] by (simp add: remaining_def)

lemma set_dependentsOf_subset: "set (dependentsOf ts c) \<subseteq> taskKey ` set ts"
  by (auto simp: set_dependentsOf)

lemma count_list_map_const: "count_list (map (\<lambda>d. x) xs) y = (if x = y then length xs else 0)"
  by (induction xs) auto

lemma dependentsOf_Cons:
  "dependentsOf (a # ts) c =
     map (\<lambda>d. taskKey a) (filter (\<lambda>d. Some d = c) (depsOrEmpty a)) @ dependentsOf ts c"
  by (simp add: dependentsOf_def)

lemma count_list_append: "count_list (xs @ ys) k = count_list xs k + count_list ys k"
  by (induction xs) auto

lemma count_dependentsOf:
  "distinct (map taskKey ts) \<Longrightarrow> t \<in> set ts \<Longrightarrow>
   count_list (dependentsOf ts c) (taskKey t) = length (filter (\<lambda>d. Some d = c) (depsOrEmpty t))"
proof (induction ts)
  case Nil
  then show ?case by simp
next
  case (Cons a ts)
  show ?case
  proof (cases "t = a")
    case True
    from Cons.prems have "taskKey a \<notin> taskKey ` set ts" by simp
    with set_dependentsOf_subset [of ts c] have "taskKey a \<notin> set (dependentsOf ts c)" by blast
    then have "count_list (dependentsOf ts c) (taskKey a) = 0"
      by (simp add: count_list_0_iff)
    with True show ?thesis
      by (simp add: dependentsOf_Cons count_list_append count_list_map_const)
  next
    case False
    with Cons.prems have t: "t \<in> set ts" and ne: "taskKey a \<noteq> taskKey t" by auto
    from Cons.IH [OF _ t] Cons.prems(1) ne show ?thesis
      by (simp add: dependentsOf_Cons count_list_append count_list_map_const)
  qed
qed

definition invJ ::
  "task list \<Rightarrow> degrees \<Rightarrow> string option list \<Rightarrow> string option list \<Rightarrow> bool" where
  "invJ ts inDegree queue order =
     (distinct (order @ queue) \<and> set (order @ queue) \<subseteq> taskKey ` set ts
      \<and> numeric inDegree (taskKey ` set ts)
      \<and> (\<forall>k \<in> set (order @ queue). \<exists>v. map_of inDegree k = Some (Some v) \<and> v \<le> 0))"

definition invI ::
  "task list \<Rightarrow> degrees \<Rightarrow> string option list \<Rightarrow> string option list \<Rightarrow> bool" where
  "invI ts inDegree queue order =
     ((\<forall>t \<in> set ts. map_of inDegree (taskKey t) = Some (Some (int (remaining order t))))
      \<and> (\<forall>t \<in> set ts. remaining order t = 0 \<longleftrightarrow> taskKey t \<in> set (order @ queue))
      \<and> dependenciesFirst ts order)"

lemma getDependentTasks_subset:
  "set (getDependentTasks c (buildDependencyGraph ts)) \<subseteq> taskKey ` set ts"
  using set_dependentsOf_subset [of ts c] by (auto simp: getDependentTasks_buildDependencyGraph)

lemma numeric_mono: "numeric inDegree ks \<Longrightarrow> ks' \<subseteq> ks \<Longrightarrow> numeric inDegree ks'"
  by (auto simp: numeric_def)

lemma invJ_step:
  assumes J: "invJ ts inDegree (c # rest) order"
    and f: "fold reduceInDegree (getDependentTasks c (buildDependencyGraph ts)) (inDegree, rest)
            = (inDegree', queue')"
  shows "invJ ts inDegree' queue' (order @ [c])"
proof -
  let ?ds = "getDependentTasks c (buildDependencyGraph ts)"
  from J have dist: "distinct (order @ c # rest)" and sub: "set (order @ c # rest) \<subseteq> taskKey ` set ts"
    and num: "numeric inDegree (taskKey ` set ts)"
    and nonpos: "\<forall>k \<in> set (order @ c # rest). \<exists>v. map_of inDegree k = Some (Some v) \<and> v \<le> 0"
    by (simp_all add: invJ_def)
  have nds: "numeric inDegree (set ?ds)"
    using num getDependentTasks_subset by (rule numeric_mono)
  from snd_fold_reduceInDegree [OF nds, of rest] f
  obtain new where new: "queue' = rest @ new" "distinct new" "set new = hitsZero inDegree ?ds"
    by auto
  have m: "map_of inDegree' k =
             map_option (map_option (\<lambda>v. v - int (count_list ?ds k))) (map_of inDegree k)" for k
    using map_of_fold_reduceInDegree [OF nds, of rest k] f by simp
  have newsub: "set new \<subseteq> taskKey ` set ts"
    using new(3) getDependentTasks_subset [of c ts] by (auto simp: hitsZero_def)
  have disj: "set new \<inter> set (order @ c # rest) = {}"
  proof -
    have False if "k \<in> set new" "k \<in> set (order @ c # rest)" for k
    proof -
      from that(1) new(3) obtain v where "map_of inDegree k = Some (Some v)" "1 \<le> v"
        by (auto simp: hitsZero_def)
      moreover from that(2) nonpos obtain v' where "map_of inDegree k = Some (Some v')" "v' \<le> 0"
        by blast
      ultimately show False by simp
    qed
    then show ?thesis by blast
  qed
  have 1: "distinct ((order @ [c]) @ queue')"
    using dist new(2) disj by (auto simp: new(1))
  have 2: "set ((order @ [c]) @ queue') \<subseteq> taskKey ` set ts"
    using sub newsub by (auto simp: new(1))
  have 3: "numeric inDegree' (taskKey ` set ts)"
    using num by (auto simp: numeric_def m)
  have 4: "\<exists>v. map_of inDegree' k = Some (Some v) \<and> v \<le> 0" if "k \<in> set ((order @ [c]) @ queue')" for k
  proof (cases "k \<in> set new")
    case True
    with new(3) obtain v where "map_of inDegree k = Some (Some v)" "v \<le> int (count_list ?ds k)"
      by (auto simp: hitsZero_def)
    then show ?thesis by (simp add: m)
  next
    case False
    with that have "k \<in> set (order @ c # rest)" by (auto simp: new(1))
    with nonpos obtain v where "map_of inDegree k = Some (Some v)" "v \<le> 0" by blast
    then show ?thesis by (simp add: m)
  qed
  from 1 2 3 4 show ?thesis unfolding invJ_def by blast
qed

lemma invI_step:
  assumes dk: "distinct (map taskKey ts)"
    and J: "invJ ts inDegree (c # rest) order"
    and I: "invI ts inDegree (c # rest) order"
    and f: "fold reduceInDegree (getDependentTasks c (buildDependencyGraph ts)) (inDegree, rest)
            = (inDegree', queue')"
  shows "invI ts inDegree' queue' (order @ [c])"
proof -
  let ?ds = "getDependentTasks c (buildDependencyGraph ts)"
  from J have dist: "distinct (order @ c # rest)" and sub: "set (order @ c # rest) \<subseteq> taskKey ` set ts"
    and num: "numeric inDegree (taskKey ` set ts)"
    by (simp_all add: invJ_def)
  from I have deg: "\<forall>t \<in> set ts. map_of inDegree (taskKey t) = Some (Some (int (remaining order t)))"
    and ready: "\<forall>t \<in> set ts. remaining order t = 0 \<longleftrightarrow> taskKey t \<in> set (order @ c # rest)"
    and first: "dependenciesFirst ts order"
    by (simp_all add: invI_def)
  from dist have cnotin: "c \<notin> set order" by simp
  from sub have ckey: "c \<in> taskKey ` set ts" by simp
  have ds: "?ds = dependentsOf ts c"
    using ckey by (simp add: getDependentTasks_buildDependencyGraph)
  have nds: "numeric inDegree (set ?ds)"
    using num getDependentTasks_subset by (rule numeric_mono)
  from snd_fold_reduceInDegree [OF nds, of rest] f
  obtain new where new: "queue' = rest @ new" "set new = hitsZero inDegree ?ds"
    by auto
  have m: "map_of inDegree' k =
             map_option (map_option (\<lambda>v. v - int (count_list ?ds k))) (map_of inDegree k)" for k
    using map_of_fold_reduceInDegree [OF nds, of rest k] f by simp
  have cnt: "count_list ?ds (taskKey t) = length (filter (\<lambda>d. Some d = c) (depsOrEmpty t))"
    if "t \<in> set ts" for t
    unfolding ds using dk that by (rule count_dependentsOf)
  have rem: "int (remaining (order @ [c]) t) =
               int (remaining order t) - int (count_list ?ds (taskKey t))" if "t \<in> set ts" for t
    using remaining_snoc [OF cnotin, of t] cnt [OF that] by simp
  have 1: "map_of inDegree' (taskKey t) = Some (Some (int (remaining (order @ [c]) t)))"
    if "t \<in> set ts" for t
    using deg that by (simp add: m rem)
  have innew: "taskKey t \<in> set new \<longleftrightarrow>
                 1 \<le> remaining order t \<and> remaining (order @ [c]) t = 0" if t: "t \<in> set ts" for t
  proof -
    have v: "map_of inDegree (taskKey t) = Some (Some (int (remaining order t)))"
      using deg t by simp
    have "taskKey t \<in> set new \<longleftrightarrow>
            taskKey t \<in> set ?ds \<and> 1 \<le> remaining order t
            \<and> int (remaining order t) \<le> int (count_list ?ds (taskKey t))"
      by (auto simp: new(2) hitsZero_def v)
    also have "\<dots> \<longleftrightarrow> 1 \<le> remaining order t \<and> remaining (order @ [c]) t = 0"
    proof -
      have "taskKey t \<in> set ?ds \<longleftrightarrow> count_list ?ds (taskKey t) \<noteq> 0"
        by (simp add: count_list_0_iff)
      with rem [OF t] show ?thesis by auto
    qed
    finally show ?thesis .
  qed
  have 2: "remaining (order @ [c]) t = 0 \<longleftrightarrow> taskKey t \<in> set ((order @ [c]) @ queue')"
    if t: "t \<in> set ts" for t
  proof -
    have le: "remaining (order @ [c]) t \<le> remaining order t"
      using rem [OF t] by linarith
    have old: "remaining order t = 0 \<longleftrightarrow> taskKey t \<in> set (order @ c # rest)"
      using ready t by blast
    have un: "set ((order @ [c]) @ queue') = set (order @ c # rest) \<union> set new"
      by (auto simp: new(1))
    show ?thesis
    proof
      assume z: "remaining (order @ [c]) t = 0"
      show "taskKey t \<in> set ((order @ [c]) @ queue')"
      proof (cases "remaining order t = 0")
        case True
        with old un show ?thesis by blast
      next
        case False
        then have "1 \<le> remaining order t" by simp
        with z innew [OF t] un show ?thesis by blast
      qed
    next
      assume "taskKey t \<in> set ((order @ [c]) @ queue')"
      with un have "taskKey t \<in> set (order @ c # rest) \<or> taskKey t \<in> set new" by blast
      then show "remaining (order @ [c]) t = 0"
      proof
        assume "taskKey t \<in> set (order @ c # rest)"
        with old have "remaining order t = 0" by blast
        with le show ?thesis by simp
      next
        assume "taskKey t \<in> set new"
        with innew [OF t] show ?thesis by blast
      qed
    qed
  qed
  have 3: "dependenciesFirst ts (order @ [c])"
  proof (rule dependenciesFirst_snoc [OF first], intro ballI impI)
    fix t d
    assume t: "t \<in> set ts" "taskKey t = c" and d: "d \<in> set (depsOrEmpty t)"
    from ready t have "remaining order t = 0" by simp
    with d show "Some d \<in> set order" by (simp add: remaining_zero_iff)
  qed
  from 1 2 3 show ?thesis unfolding invI_def by blast
qed

subsection \<open>The state before the loop\<close>

lemma map_of_setInDegree:
  "map_of (setInDegree t inDegree) k =
     (if k = taskKey t then Some (Some (int (length (depsOrEmpty t)))) else map_of inDegree k)"
  by (simp add: setInDegree_def update_conv')

lemma map_of_fold_setInDegree:
  "map_of (fold setInDegree ts inDegree) k =
     (case lastWithKey k ts of
        Some t \<Rightarrow> Some (Some (int (length (depsOrEmpty t))))
      | None \<Rightarrow> map_of inDegree k)"
proof (induction ts arbitrary: inDegree)
  case Nil
  show ?case by simp
next
  case (Cons t ts)
  show ?case
    by (auto simp: Cons.IH map_of_setInDegree split: option.split)
qed

lemma distinct_fold_setInDegree:
  "distinct (map fst inDegree) \<Longrightarrow> distinct (map fst (fold setInDegree ts inDegree))"
  by (induction ts arbitrary: inDegree) (simp_all add: setInDegree_def distinct_update)

lemma set_zeroInDegree:
  "distinct (map fst inDegree) \<Longrightarrow>
   set (zeroInDegree inDegree) = {k. map_of inDegree k = Some (Some 0)}"
  by (force simp: zeroInDegree_def)

lemma distinct_zeroInDegree:
  "distinct (map fst inDegree) \<Longrightarrow> distinct (zeroInDegree inDegree)"
  by (simp add: zeroInDegree_def distinct_map_filter)

lemma invJ_init:
  "invJ ts (fold setInDegree ts []) (zeroInDegree (fold setInDegree ts [])) []"
proof -
  let ?i = "fold setInDegree ts []"
  have d: "distinct (map fst ?i)"
    by (rule distinct_fold_setInDegree) simp
  have dom: "map_of ?i k = Some v \<Longrightarrow> k \<in> taskKey ` set ts" for k v
    using lastWithKey_None_iff [of k ts]
    by (auto simp: map_of_fold_setInDegree split: option.splits)
  have num: "numeric ?i (taskKey ` set ts)"
    unfolding numeric_def
  proof
    fix k assume "k \<in> taskKey ` set ts"
    then have "lastWithKey k ts \<noteq> None" by (simp add: lastWithKey_None_iff)
    then show "\<exists>v. map_of ?i k = Some (Some v)"
      by (auto simp: map_of_fold_setInDegree)
  qed
  show ?thesis
    unfolding invJ_def using num dom
    by (auto simp: set_zeroInDegree [OF d] distinct_zeroInDegree [OF d])
qed

lemma invI_init:
  assumes dk: "distinct (map taskKey ts)"
  shows "invI ts (fold setInDegree ts []) (zeroInDegree (fold setInDegree ts [])) []"
proof -
  let ?i = "fold setInDegree ts []"
  have d: "distinct (map fst ?i)"
    by (rule distinct_fold_setInDegree) simp
  have v: "map_of ?i (taskKey t) = Some (Some (int (length (depsOrEmpty t))))" if "t \<in> set ts" for t
    using lastWithKey_distinct [OF dk that] by (simp add: map_of_fold_setInDegree)
  show ?thesis
    unfolding invI_def
    by (auto simp: v remaining_Nil set_zeroInDegree [OF d] dependenciesFirst_Nil)
qed

subsection \<open>The order the loop returns\<close>

lemma processQueue_invJ:
  "invJ ts inDegree queue order \<Longrightarrow>
   distinct (processQueue (buildDependencyGraph ts) inDegree queue order)
   \<and> set (processQueue (buildDependencyGraph ts) inDegree queue order) \<subseteq> taskKey ` set ts"
proof (induction "buildDependencyGraph ts" inDegree queue order rule: processQueue.induct)
  case (1 inDegree order)
  then show ?case by (simp add: invJ_def processQueue.simps)
next
  case (2 inDegree current rest order)
  obtain i' q' where f: "fold reduceInDegree (getDependentTasks current (buildDependencyGraph ts))
      (inDegree, rest) = (i', q')"
    by (cases "fold reduceInDegree (getDependentTasks current (buildDependencyGraph ts)) (inDegree, rest)")
  from invJ_step [OF "2.prems" f] have "invJ ts i' q' (order @ [current])" .
  from "2.hyps" [OF f [symmetric] this] show ?case
    by (simp add: processQueue.simps f)
qed

lemma processQueue_invI:
  "distinct (map taskKey ts) \<Longrightarrow> invJ ts inDegree queue order \<Longrightarrow> invI ts inDegree queue order \<Longrightarrow>
   (\<forall>t \<in> set ts. remaining (processQueue (buildDependencyGraph ts) inDegree queue order) t = 0
        \<longleftrightarrow> taskKey t \<in> set (processQueue (buildDependencyGraph ts) inDegree queue order))
   \<and> dependenciesFirst ts (processQueue (buildDependencyGraph ts) inDegree queue order)"
proof (induction "buildDependencyGraph ts" inDegree queue order rule: processQueue.induct)
  case (1 inDegree order)
  then show ?case by (simp add: invI_def processQueue.simps)
next
  case (2 inDegree current rest order)
  obtain i' q' where f: "fold reduceInDegree (getDependentTasks current (buildDependencyGraph ts))
      (inDegree, rest) = (i', q')"
    by (cases "fold reduceInDegree (getDependentTasks current (buildDependencyGraph ts)) (inDegree, rest)")
  from invJ_step [OF "2.prems"(2) f] have J: "invJ ts i' q' (order @ [current])" .
  from invI_step [OF "2.prems" f] have I: "invI ts i' q' (order @ [current])" .
  from "2.hyps" [OF f [symmetric] "2.prems"(1) J I] show ?case
    by (simp add: processQueue.simps f)
qed

section \<open>Validation: acyclic lists, cycles and unknown dependencies\<close>

text \<open>
  The declared dependency relation of a task list: an edge from the key of a task to each
  id it declares.
\<close>

definition depEdges :: "task list \<Rightarrow> (string option \<times> string option) set" where
  "depEdges ts = set (concat (map (\<lambda>t. map (\<lambda>d. (taskKey t, Some d)) (depsOrEmpty t)) ts))"

text \<open>Every declared dependency is the key of a task of the list.\<close>

definition allDependenciesKnown :: "task list \<Rightarrow> bool" where
  "allDependenciesKnown ts =
     (\<forall>t \<in> set ts. \<forall>d \<in> set (depsOrEmpty t). Some d \<in> taskKey ` set ts)"

lemma depEdges_iff:
  "(k, k') \<in> depEdges ts \<longleftrightarrow> (\<exists>t \<in> set ts. taskKey t = k \<and> (\<exists>d \<in> set (depsOrEmpty t). k' = Some d))"
  by (auto simp: depEdges_def)

lemma calculateExecutionOrder_distinct_subset:
  "distinct (calculateExecutionOrder ts (buildDependencyGraph ts))
   \<and> set (calculateExecutionOrder ts (buildDependencyGraph ts)) \<subseteq> taskKey ` set ts"
  unfolding calculateExecutionOrder_def Let_def
  by (rule processQueue_invJ [OF invJ_init])

lemma calculateExecutionOrder_ready:
  assumes "distinct (map taskKey ts)"
  shows "(\<forall>t \<in> set ts. remaining (calculateExecutionOrder ts (buildDependencyGraph ts)) t = 0
            \<longleftrightarrow> taskKey t \<in> set (calculateExecutionOrder ts (buildDependencyGraph ts)))
         \<and> dependenciesFirst ts (calculateExecutionOrder ts (buildDependencyGraph ts))"
  unfolding calculateExecutionOrder_def Let_def
  by (rule processQueue_invI [OF assms invJ_init invI_init [OF assms]])

lemma order_ready:
  "distinct (map taskKey ts) \<Longrightarrow> t \<in> set ts \<Longrightarrow>
   remaining (calculateExecutionOrder ts (buildDependencyGraph ts)) t = 0
     \<longleftrightarrow> taskKey t \<in> set (calculateExecutionOrder ts (buildDependencyGraph ts))"
  using calculateExecutionOrder_ready [of ts] by blast

lemma order_dependenciesFirst:
  "distinct (map taskKey ts) \<Longrightarrow>
   dependenciesFirst ts (calculateExecutionOrder ts (buildDependencyGraph ts))"
  using calculateExecutionOrder_ready [of ts] by blast

lemma order_distinct: "distinct (calculateExecutionOrder ts (buildDependencyGraph ts))"
  using calculateExecutionOrder_distinct_subset [of ts] by blast

lemma order_subset:
  "set (calculateExecutionOrder ts (buildDependencyGraph ts)) \<subseteq> taskKey ` set ts"
  using calculateExecutionOrder_distinct_subset [of ts] by blast

lemma length_order_le:
  assumes "distinct order" "set order \<subseteq> taskKey ` set ts"
  shows "length order \<le> length ts"
    and "length order = length ts \<longleftrightarrow> distinct (map taskKey ts) \<and> set order = taskKey ` set ts"
proof -
  have k: "taskKey ` set ts = set (map taskKey ts)" by simp
  have 1: "length order = card (set order)"
    using assms(1) by (simp add: distinct_card)
  have 2: "card (set order) \<le> card (taskKey ` set ts)"
    using assms(2) by (simp add: card_mono)
  have 3: "card (taskKey ` set ts) \<le> length ts"
    unfolding k using card_length [of "map taskKey ts"] by simp
  from 1 2 3 show "length order \<le> length ts" by simp
  show "length order = length ts \<longleftrightarrow> distinct (map taskKey ts) \<and> set order = taskKey ` set ts"
  proof
    assume e: "length order = length ts"
    with 1 2 3 have c: "card (taskKey ` set ts) = length ts"
      and c': "card (set order) = card (taskKey ` set ts)" by simp_all
    from c have "distinct (map taskKey ts)"
      unfolding k by (simp add: card_distinct)
    moreover from c' assms(2) have "set order = taskKey ` set ts"
      by (simp add: card_subset_eq)
    ultimately show "distinct (map taskKey ts) \<and> set order = taskKey ` set ts" ..
  next
    assume "distinct (map taskKey ts) \<and> set order = taskKey ` set ts"
    then have "card (set order) = length ts"
      unfolding k using distinct_card [of "map taskKey ts"] by simp
    with 1 show "length order = length ts" by simp
  qed
qed

lemma dependenciesFirst_edge:
  assumes "dependenciesFirst ts order" "(k, k') \<in> depEdges ts" "i < length order" "order ! i = k"
  shows "\<exists>j < i. order ! j = k'"
proof -
  from assms(2) obtain t d where t: "t \<in> set ts" "taskKey t = k" "d \<in> set (depsOrEmpty t)"
    "k' = Some d"
    by (auto simp: depEdges_iff)
  with assms(1,3,4) have "Some d \<in> set (take i order)"
    by (auto simp: dependenciesFirst_def)
  then obtain j where "j < length (take i order)" "take i order ! j = Some d"
    by (auto simp: in_set_conv_nth)
  with assms(3) t(4) show ?thesis by auto
qed

lemma dependenciesFirst_path:
  assumes "dependenciesFirst ts order" "(k, k') \<in> (depEdges ts)\<^sup>+"
  shows "i < length order \<Longrightarrow> order ! i = k \<Longrightarrow> \<exists>j < i. order ! j = k'"
  using assms(2)
proof (induction arbitrary: i rule: trancl_induct)
  case (base y)
  from dependenciesFirst_edge [OF assms(1) base(1) base(2) base(3)] show ?case .
next
  case (step y z)
  from step.IH [OF step.prems] obtain j where j: "j < i" "order ! j = y" by blast
  with step.prems have "j < length order" by simp
  from dependenciesFirst_edge [OF assms(1) step.hyps(2) this j(2)]
  obtain l where "l < j" "order ! l = z" by blast
  with j(1) have "l < i" "order ! l = z" by simp_all
  then show ?case by blast
qed

lemma on_cycle_not_in_order:
  assumes "dependenciesFirst ts order" "(k, k) \<in> (depEdges ts)\<^sup>+"
  shows "k \<notin> set order"
proof -
  have "i < length order \<Longrightarrow> order ! i \<noteq> k" for i
  proof (induction i rule: less_induct)
    case (less i)
    show ?case
    proof
      assume "order ! i = k"
      from dependenciesFirst_path [OF assms less.prems this] obtain j where "j < i" "order ! j = k"
        by blast
      with less.IH [of j] less.prems show False by simp
    qed
  qed
  then show ?thesis by (auto simp: in_set_conv_nth)
qed

lemma trancl_source_is_key: "(k, k') \<in> (depEdges ts)\<^sup>+ \<Longrightarrow> k \<in> taskKey ` set ts"
  by (induction rule: trancl_induct) (auto simp: depEdges_iff)

lemma order_shorter_if_missing:
  assumes "distinct order" "set order \<subseteq> taskKey ` set ts" "k \<in> taskKey ` set ts" "k \<notin> set order"
  shows "length order < length ts"
proof -
  from assms(3,4) have "set order \<noteq> taskKey ` set ts" by blast
  with length_order_le [OF assms(1,2)] show ?thesis by (simp add: le_less)
qed

lemma order_shorter_if_duplicate:
  assumes "distinct order" "set order \<subseteq> taskKey ` set ts" "\<not> distinct (map taskKey ts)"
  shows "length order < length ts"
  using length_order_le [OF assms(1,2)] assms(3) by (simp add: le_less)

lemma order_shorter_if_cycle:
  assumes "\<not> acyclic (depEdges ts)"
  shows "length (calculateExecutionOrder ts (buildDependencyGraph ts)) < length ts"
proof (cases "distinct (map taskKey ts)")
  case True
  from assms obtain k where k: "(k, k) \<in> (depEdges ts)\<^sup>+"
    by (auto simp: acyclic_def)
  have "k \<notin> set (calculateExecutionOrder ts (buildDependencyGraph ts))"
    using order_dependenciesFirst [OF True] k by (rule on_cycle_not_in_order)
  with order_distinct order_subset trancl_source_is_key [OF k]
  show ?thesis by (rule order_shorter_if_missing)
next
  case False
  with order_distinct order_subset
  show ?thesis by (rule order_shorter_if_duplicate)
qed

lemma order_shorter_if_unknown:
  assumes "t \<in> set ts" "d \<in> set (depsOrEmpty t)" "Some d \<notin> taskKey ` set ts"
  shows "length (calculateExecutionOrder ts (buildDependencyGraph ts)) < length ts"
proof (cases "distinct (map taskKey ts)")
  case True
  let ?order = "calculateExecutionOrder ts (buildDependencyGraph ts)"
  from order_subset [of ts] assms(3) have "Some d \<notin> set ?order"
    by blast
  with assms(2) have "remaining ?order t \<noteq> 0"
    by (auto simp: remaining_zero_iff)
  with order_ready [OF True assms(1)] have "taskKey t \<notin> set ?order"
    by blast
  moreover from assms(1) have "taskKey t \<in> taskKey ` set ts" by blast
  ultimately show ?thesis
    using order_distinct order_subset by (blast intro: order_shorter_if_missing)
next
  case False
  with order_distinct order_subset
  show ?thesis by (rule order_shorter_if_duplicate)
qed

lemma finite_depEdges: "finite (depEdges ts)"
  by (simp add: depEdges_def)

lemma order_complete_if_acyclic:
  assumes dk: "distinct (map taskKey ts)" and known: "allDependenciesKnown ts"
    and ac: "acyclic (depEdges ts)"
  shows "set (calculateExecutionOrder ts (buildDependencyGraph ts)) = taskKey ` set ts"
proof -
  let ?order = "calculateExecutionOrder ts (buildDependencyGraph ts)"
  have "wf ((depEdges ts)\<inverse>)"
    using finite_depEdges ac by (simp add: finite_acyclic_wf_converse)
  then have "k \<in> taskKey ` set ts \<longrightarrow> k \<in> set ?order" for k
  proof (induction k rule: wf_induct_rule)
    case (less k)
    show ?case
    proof
      assume "k \<in> taskKey ` set ts"
      then obtain t where t: "t \<in> set ts" "taskKey t = k" by blast
      have "Some d \<in> set ?order" if d: "d \<in> set (depsOrEmpty t)" for d
      proof -
        from t d have "(Some d, k) \<in> (depEdges ts)\<inverse>"
          by (auto simp: depEdges_iff)
        moreover from known t(1) d have "Some d \<in> taskKey ` set ts"
          by (simp add: allDependenciesKnown_def)
        ultimately show ?thesis using less.IH by blast
      qed
      then have "remaining ?order t = 0"
        by (simp add: remaining_zero_iff)
      with order_ready [OF dk t(1)] t(2) show "k \<in> set ?order" by blast
    qed
  qed
  with order_subset [of ts] show ?thesis by blast
qed

lemma validateDependencies_eq:
  "validateDependencies ts =
     \<lparr>valid = (length (calculateExecutionOrder ts (buildDependencyGraph ts)) = length ts),
      cycleDetected = (length (calculateExecutionOrder ts (buildDependencyGraph ts)) \<noteq> length ts)\<rparr>"
  by (simp add: validateDependencies_def Let_def)

definition twoCycle :: "task list" where
  "twoCycle = [mkTask ''1'' [''2''], mkTask ''2'' [''1'']]"

definition unknownOnly :: "task list" where
  "unknownOnly = [mkTask ''1'' [''2'']]"

definition unknownSecond :: "task list" where
  "unknownSecond = [mkTask ''1'' [], mkTask ''2'' [''1'', ''7'']]"

text \<open>
  C3 (amended). For a task list with pairwise distinct keys whose declared dependencies
  are all keys of the list and whose dependency relation is acyclic, the execution order
  contains every task exactly once, each after all its dependencies, its length is the
  task count and validation returns \<open>valid = true\<close>. For every task list whose dependency
  relation has a cycle the order is shorter than the task count and validation returns
  \<open>{valid: false, cycleDetected: true}\<close>; when the keys are distinct, no task on a cycle
  is in the order.
\<close>

theorem validateDependencies_acyclic_or_cyclic:
  fixes ts :: "task list"
  defines "order \<equiv> calculateExecutionOrder ts (buildDependencyGraph ts)"
  shows "(distinct (map taskKey ts) \<and> allDependenciesKnown ts \<and> acyclic (depEdges ts) \<longrightarrow>
            length order = length ts \<and> distinct order \<and> set order = taskKey ` set ts
            \<and> dependenciesFirst ts order
            \<and> validateDependencies ts = \<lparr>valid = True, cycleDetected = False\<rparr>)
       \<and> (\<not> acyclic (depEdges ts) \<longrightarrow>
            length order < length ts
            \<and> validateDependencies ts = \<lparr>valid = False, cycleDetected = True\<rparr>)
       \<and> (distinct (map taskKey ts) \<longrightarrow>
            (\<forall>k. (k, k) \<in> (depEdges ts)\<^sup>+ \<longrightarrow> k \<in> taskKey ` set ts \<and> k \<notin> set order))"
proof (intro conjI impI allI)
  assume a: "distinct (map taskKey ts) \<and> allDependenciesKnown ts \<and> acyclic (depEdges ts)"
  then have s: "set order = taskKey ` set ts"
    unfolding order_def by (simp add: order_complete_if_acyclic)
  from a have l: "length order = length ts"
    unfolding order_def using length_order_le(2) [OF order_distinct order_subset, of ts] s
    by (simp add: order_def)
  show "length order = length ts" by (rule l)
  show "distinct order" unfolding order_def by (rule order_distinct)
  show "set order = taskKey ` set ts" by (rule s)
  show "dependenciesFirst ts order"
    unfolding order_def using a by (simp add: order_dependenciesFirst)
  show "validateDependencies ts = \<lparr>valid = True, cycleDetected = False\<rparr>"
    using l by (simp add: validateDependencies_eq order_def)
next
  assume c: "\<not> acyclic (depEdges ts)"
  from order_shorter_if_cycle [OF c] show l: "length order < length ts"
    by (simp add: order_def)
  then show "validateDependencies ts = \<lparr>valid = False, cycleDetected = True\<rparr>"
    by (simp add: validateDependencies_eq order_def)
next
  fix k
  assume dk: "distinct (map taskKey ts)" and k: "(k, k) \<in> (depEdges ts)\<^sup>+"
  show "k \<notin> set order"
    unfolding order_def using order_dependenciesFirst [OF dk] k by (rule on_cycle_not_in_order)
  from k show "k \<in> taskKey ` set ts" by (rule trancl_source_is_key)
qed

lemma acyclic_diamond: "acyclic (depEdges diamond)"
proof (rule acyclicI_order)
  fix a b
  assume "(a, b) \<in> depEdges diamond"
  then show "(if b = Some ''1'' then 0 else if b = Some ''4'' then 2 else (1::nat))
           < (if a = Some ''1'' then 0 else if a = Some ''4'' then 2 else (1::nat))"
    by (auto simp: depEdges_def diamond_def)
qed

lemma cyclic_twoCycle: "\<not> acyclic (depEdges twoCycle)"
proof -
  have "(Some ''1'', Some ''2'') \<in> depEdges twoCycle" "(Some ''2'', Some ''1'') \<in> depEdges twoCycle"
    by (simp_all add: depEdges_def twoCycle_def)
  then have "(Some ''1'', Some ''1'') \<in> (depEdges twoCycle)\<^sup>+"
    by (rule trancl_into_trancl [OF r_into_trancl])
  then show ?thesis by (auto simp: acyclic_def)
qed

theorem validateDependencies_witness:
  "distinct (map taskKey diamond) \<and> allDependenciesKnown diamond \<and> acyclic (depEdges diamond)
   \<and> calculateExecutionOrder diamond (buildDependencyGraph diamond) =
       [Some ''1'', Some ''2'', Some ''3'', Some ''4'']
   \<and> validateDependencies diamond = \<lparr>valid = True, cycleDetected = False\<rparr>
   \<and> \<not> acyclic (depEdges twoCycle)
   \<and> distinct (map taskKey twoCycle)
   \<and> (Some ''1'', Some ''1'') \<in> (depEdges twoCycle)\<^sup>+
   \<and> validateDependencies twoCycle = \<lparr>valid = False, cycleDetected = True\<rparr>"
proof -
  have d: "distinct (map taskKey diamond)" "allDependenciesKnown diamond"
    by (simp_all add: diamond_def allDependenciesKnown_def)
  have o: "calculateExecutionOrder diamond (buildDependencyGraph diamond) =
       [Some ''1'', Some ''2'', Some ''3'', Some ''4'']"
    by code_simp
  have t: "distinct (map taskKey twoCycle)"
    by (simp add: twoCycle_def)
  have "(Some ''1'', Some ''2'') \<in> depEdges twoCycle" "(Some ''2'', Some ''1'') \<in> depEdges twoCycle"
    by (simp_all add: depEdges_def twoCycle_def)
  then have c: "(Some ''1'', Some ''1'') \<in> (depEdges twoCycle)\<^sup>+"
    by (rule trancl_into_trancl [OF r_into_trancl])
  from validateDependencies_acyclic_or_cyclic [of diamond]
    validateDependencies_acyclic_or_cyclic [of twoCycle]
    d o t c acyclic_diamond cyclic_twoCycle
  show ?thesis by simp
qed

text \<open>
  C3 as stated fails on an acyclic list with a dependency that matches no task, and on
  an acyclic list in which two tasks have the same id: the order is shorter than the task
  count and validation does not return \<open>valid = true\<close>.
\<close>

definition repeatedId :: "task list" where
  "repeatedId = [mkTask ''1'' [], mkTask ''1'' []]"

lemma acyclic_unknownOnly: "acyclic (depEdges unknownOnly)"
  by (simp add: depEdges_def unknownOnly_def acyclic_insert wf_acyclic)

lemma acyclic_repeatedId: "acyclic (depEdges repeatedId)"
  by (simp add: depEdges_def repeatedId_def wf_acyclic)

theorem validateDependencies_acyclic_counterexample:
  "distinct (map taskKey unknownOnly) \<and> acyclic (depEdges unknownOnly)
   \<and> calculateExecutionOrder unknownOnly (buildDependencyGraph unknownOnly) = []
   \<and> validateDependencies unknownOnly = \<lparr>valid = False, cycleDetected = True\<rparr>
   \<and> allDependenciesKnown repeatedId \<and> acyclic (depEdges repeatedId)
   \<and> calculateExecutionOrder repeatedId (buildDependencyGraph repeatedId) = [Some ''1'']
   \<and> validateDependencies repeatedId = \<lparr>valid = False, cycleDetected = True\<rparr>"
proof -
  have "calculateExecutionOrder unknownOnly (buildDependencyGraph unknownOnly) = []"
    by code_simp
  moreover have "validateDependencies unknownOnly = \<lparr>valid = False, cycleDetected = True\<rparr>"
    by code_simp
  moreover have "calculateExecutionOrder repeatedId (buildDependencyGraph repeatedId) = [Some ''1'']"
    by code_simp
  moreover have "validateDependencies repeatedId = \<lparr>valid = False, cycleDetected = True\<rparr>"
    by code_simp
  moreover have "allDependenciesKnown repeatedId"
    by (simp add: allDependenciesKnown_def repeatedId_def)
  ultimately show ?thesis
    using acyclic_unknownOnly acyclic_repeatedId by (simp add: unknownOnly_def)
qed

text \<open>
  C4 (amended). For every task list in which some task declares a dependency id that
  matches no task, the graph has no node for that id and validation returns
  \<open>{valid: false, cycleDetected: true}\<close>, the result it returns for a cycle.
\<close>

theorem validateDependencies_unknown_dependency:
  assumes "t \<in> set ts" "d \<in> set (depsOrEmpty t)" "Some d \<notin> taskKey ` set ts"
  shows "map_of (buildDependencyGraph ts) (Some d) = None
       \<and> length (calculateExecutionOrder ts (buildDependencyGraph ts)) < length ts
       \<and> validateDependencies ts = \<lparr>valid = False, cycleDetected = True\<rparr>"
proof -
  have "map_of (buildDependencyGraph ts) (Some d) = None"
    using assms(3) by (simp add: map_of_buildDependencyGraph lastWithKey_None_iff)
  moreover note l = order_shorter_if_unknown [OF assms]
  moreover from l have "validateDependencies ts = \<lparr>valid = False, cycleDetected = True\<rparr>"
    by (simp add: validateDependencies_eq)
  ultimately show ?thesis by simp
qed

theorem validateDependencies_unknown_dependency_witness:
  "mkTask ''2'' [''1'', ''7''] \<in> set unknownSecond
   \<and> ''7'' \<in> set (depsOrEmpty (mkTask ''2'' [''1'', ''7'']))
   \<and> Some ''7'' \<notin> taskKey ` set unknownSecond
   \<and> validateDependencies unknownSecond = \<lparr>valid = False, cycleDetected = True\<rparr>"
  using validateDependencies_unknown_dependency
    [of "mkTask ''2'' [''1'', ''7'']" unknownSecond "''7''"]
  by (simp add: unknownSecond_def)

text \<open>
  C4 as stated fails: the list with the unknown id \<open>7\<close> has no cycle, and validation
  returns for it exactly what it returns for the cycle of two tasks, with
  \<open>cycleDetected = true\<close>.
\<close>

lemma acyclic_unknownSecond: "acyclic (depEdges unknownSecond)"
proof (rule acyclicI_order)
  fix a b
  assume "(a, b) \<in> depEdges unknownSecond"
  then show "(if b = Some ''2'' then 1 else (0::nat)) < (if a = Some ''2'' then 1 else (0::nat))"
    by (auto simp: depEdges_def unknownSecond_def)
qed

theorem validateDependencies_unknown_dependency_counterexample:
  "Some ''7'' \<notin> taskKey ` set unknownSecond
   \<and> acyclic (depEdges unknownSecond)
   \<and> cycleDetected (validateDependencies unknownSecond)
   \<and> validateDependencies unknownSecond = validateDependencies twoCycle"
proof -
  have "validateDependencies unknownSecond = \<lparr>valid = False, cycleDetected = True\<rparr>"
    by code_simp
  moreover have "validateDependencies twoCycle = \<lparr>valid = False, cycleDetected = True\<rparr>"
    by code_simp
  ultimately show ?thesis
    using acyclic_unknownSecond by (simp add: unknownSecond_def)
qed

section \<open>Alignment checkers (skills/goal-alignment-monitor/lib/checkers.js)\<close>

subsection \<open>Strings and numbers of the host language\<close>

text \<open>
  \<open>String.prototype.trim\<close>, \<open>split\<close> on one character and \<open>includes\<close>, on ASCII
  text. Numbers read from test reports are whole numbers here.
\<close>

definition isSpace :: "char \<Rightarrow> bool" where
  "isSpace c = (c \<in> {CHR 0x09, CHR 0x0A, CHR 0x0B, CHR 0x0C, CHR 0x0D, CHR '' ''})"


fun split :: "char \<Rightarrow> string \<Rightarrow> string list" where
  "split sep [] = [[]]"
| "split sep (c # cs) =
     (if c = sep then [] # split sep cs
      else (case split sep cs of [] \<Rightarrow> [[c]] | w # ws \<Rightarrow> (c # w) # ws))"

fun startsWith :: "string \<Rightarrow> string \<Rightarrow> bool" where
  "startsWith s [] = True"
| "startsWith [] (p # ps) = False"
| "startsWith (c # cs) (p # ps) = (c = p \<and> startsWith cs ps)"


definition String_int :: "int \<Rightarrow> string" where
  "String_int i = (if i < 0 then ''-'' @ String_nat (nat (- i)) else String_nat (nat i))"

text \<open>
  \<open>parseInt\<close> without a radix: leading white space, an optional sign, then hexadecimal
  digits after \<open>0x\<close> or decimal digits; \<open>NaN\<close> (\<open>None\<close>) when no digit is found.
\<close>

definition digitValue :: "char \<Rightarrow> nat option" where
  "digitValue c =
     (let n = (of_char c :: nat) in
      if 48 \<le> n \<and> n \<le> 57 then Some (n - 48)
      else if 97 \<le> n \<and> n \<le> 102 then Some (n - 87)
      else if 65 \<le> n \<and> n \<le> 70 then Some (n - 55)
      else None)"

definition isDigit :: "nat \<Rightarrow> char \<Rightarrow> bool" where
  "isDigit radix c = (case digitValue c of None \<Rightarrow> False | Some v \<Rightarrow> v < radix)"

definition digitsValue :: "nat \<Rightarrow> string \<Rightarrow> nat" where
  "digitsValue radix ds = foldl (\<lambda>acc c. acc * radix + the (digitValue c)) 0 ds"

definition parseDigits :: "nat \<Rightarrow> string \<Rightarrow> int option" where
  "parseDigits radix s =
     (let ds = takeWhile (isDigit radix) s
      in if ds = [] then None else Some (int (digitsValue radix ds)))"

definition parseUnsigned :: "string \<Rightarrow> int option" where
  "parseUnsigned s =
     (if startsWith s ''0x'' \<or> startsWith s ''0X'' then parseDigits 16 (drop 2 s)
      else parseDigits 10 s)"

definition parseInt :: "string \<Rightarrow> int option" where
  "parseInt str =
     (case dropWhile isSpace str of
        [] \<Rightarrow> None
      | c # cs \<Rightarrow>
          if c = CHR ''-'' then map_option uminus (parseUnsigned cs)
          else if c = CHR ''+'' then parseUnsigned cs
          else parseUnsigned (c # cs))"

subsection \<open>The two patterns of the performance checker\<close>

text \<open>
  The source writes the patterns as regular-expression literals with doubled backslashes:
  \<^verbatim>\<open>/<\\s*(\\d+)ms/i\<close> and \<^verbatim>\<open>/(\\d+)\\s*concurrent/i\<close>. In a literal, a doubled
  backslash is an escaped backslash, so the first pattern reads: \<open><\<close>, a backslash, any number of
  \<open>s\<close>, then the group (a backslash and one or more \<open>d\<close>), then \<open>ms\<close>; letters match in
  either case. The group of the second is the same, followed by a backslash, any number
  of \<open>s\<close>, and \<open>concurrent\<close>. \<open>match\<close> returns the leftmost match; the functions below
  return its group 1.
\<close>

definition backslash :: char where
  "backslash = CHR 0x5C"

definition isLetter :: "char \<Rightarrow> char \<Rightarrow> bool" where
  "isLetter l c = (lowerChar c = l)"

text \<open>The group \<^verbatim>\<open>(\\d+)\<close> at the start of a string: the group and the rest.\<close>

definition matchGroup :: "string \<Rightarrow> (string \<times> string) option" where
  "matchGroup s =
     (case s of
        [] \<Rightarrow> None
      | c # cs \<Rightarrow>
          if c = backslash \<and> takeWhile (isLetter CHR ''d'') cs \<noteq> []
          then Some (c # takeWhile (isLetter CHR ''d'') cs, dropWhile (isLetter CHR ''d'') cs)
          else None)"

definition matchTimeAt :: "string \<Rightarrow> string option" where
  "matchTimeAt s =
     (case s of
        c1 # c2 # rest \<Rightarrow>
          if c1 = CHR ''<'' \<and> c2 = backslash then
            (case matchGroup (dropWhile (isLetter CHR ''s'') rest) of
               None \<Rightarrow> None
             | Some (g, after) \<Rightarrow>
                 if startsWith (toLowerCase after) ''ms'' then Some g else None)
          else None
      | _ \<Rightarrow> None)"

definition matchThroughputAt :: "string \<Rightarrow> string option" where
  "matchThroughputAt s =
     (case matchGroup s of
        None \<Rightarrow> None
      | Some (g, after) \<Rightarrow>
          (case after of
             [] \<Rightarrow> None
           | b # rest \<Rightarrow>
               if b = backslash
                  \<and> startsWith (toLowerCase (dropWhile (isLetter CHR ''s'') rest)) ''concurrent''
               then Some g else None))"

fun firstMatch :: "(string \<Rightarrow> string option) \<Rightarrow> string \<Rightarrow> string option" where
  "firstMatch m [] = m []"
| "firstMatch m (c # cs) =
     (case m (c # cs) of Some g \<Rightarrow> Some g | None \<Rightarrow> firstMatch m cs)"

definition timeMatch :: "string \<Rightarrow> string option" where
  "timeMatch requirement = firstMatch matchTimeAt requirement"

definition throughputMatch :: "string \<Rightarrow> string option" where
  "throughputMatch requirement = firstMatch matchThroughputAt requirement"

subsection \<open>Issues, check results and test reports\<close>

record issue =
  category :: "string option"
  message :: string
  severity :: "string option"
  location :: "string list option"

record checkResult =
  passed :: bool
  issues :: "issue list"
  critical :: bool
  coverage :: "int option"


record performanceResults =
  avgResponseTime :: "int option"
  concurrentCapacity :: "int option"

record securityResults =
  hardcodedSecrets :: bool
  secretLocations :: "string list option"
  sqlInjectionRisk :: bool
  xssRisk :: bool
  usesJWT :: bool
  usesBcrypt :: bool

record tests =
  t_coverage :: "int option"
  unitTests :: "int option"
  integrationTests :: "int option"
  e2eTests :: "int option"
  failed :: "int option"
  performance :: "performanceResults option"
  security :: "securityResults option"

text \<open>\<open>x || 0\<close> on a number that may be absent.\<close>

definition orZero :: "int option \<Rightarrow> int" where
  "orZero x = (case x of None \<Rightarrow> 0 | Some n \<Rightarrow> n)"

text \<open>A fresh issue as a checker pushes it: a message and a severity, sometimes a location.\<close>

definition mkIssue :: "string \<Rightarrow> string \<Rightarrow> issue" where
  "mkIssue m s = \<lparr>category = None, message = m, severity = Some s, location = None\<rparr>"

definition someCritical :: "issue list \<Rightarrow> bool" where
  "someCritical xs = list_ex (\<lambda>i. severity i = Some ''critical'') xs"

subsection \<open>ArchitectureChecker\<close>




subsection \<open>StyleChecker\<close>




subsection \<open>TestingChecker\<close>


subsection \<open>PerformanceChecker\<close>

text \<open>
  The two comparisons, on the parsed target (\<open>None\<close> is \<open>NaN\<close>, with which every
  comparison is false).
\<close>

definition responseTimeIssues :: "int option \<Rightarrow> int \<Rightarrow> issue list" where
  "responseTimeIssues targetTime actualTime =
     (case targetTime of
        None \<Rightarrow> []
      | Some target \<Rightarrow>
          if actualTime > target then
            [mkIssue (''Response time '' @ String_int actualTime @ ''ms exceeds target ''
                      @ String_int target @ ''ms'')
               (if actualTime > target * 2 then ''critical'' else ''warning'')]
          else [])"

definition concurrencyIssues :: "int option \<Rightarrow> int \<Rightarrow> issue list" where
  "concurrencyIssues targetConcurrent actualConcurrent =
     (case targetConcurrent of
        None \<Rightarrow> []
      | Some target \<Rightarrow>
          if actualConcurrent < target then
            [mkIssue (''Concurrent capacity '' @ String_int actualConcurrent
                      @ '' below target '' @ String_int target) ''warning'']
          else [])"

definition PerformanceChecker_check :: "'code \<Rightarrow> tests option \<Rightarrow> string \<Rightarrow> checkResult" where
  "PerformanceChecker_check code ts requirement =
     (let perfResults = (case ts of None \<Rightarrow> None | Some t \<Rightarrow> performance t);
          perf = (\<lambda>f. case perfResults of None \<Rightarrow> None | Some p \<Rightarrow> f p);
          issues =
            (case timeMatch requirement of
               None \<Rightarrow> []
             | Some g \<Rightarrow> responseTimeIssues (parseInt g) (orZero (perf avgResponseTime)))
            @ (case throughputMatch requirement of
                 None \<Rightarrow> []
               | Some g \<Rightarrow> concurrencyIssues (parseInt g) (orZero (perf concurrentCapacity)))
      in \<lparr>passed = (length issues = 0), issues = issues, critical = someCritical issues,
          coverage = None\<rparr>)"

subsection \<open>SecurityChecker\<close>


subsection \<open>AlignmentChecker\<close>








lemma matchGroup_backslash: "matchGroup s = Some (g, after) \<Longrightarrow> \<exists>ds. g = backslash # ds"
  by (cases s) (auto simp: matchGroup_def split: if_splits)

lemma matchTimeAt_backslash: "matchTimeAt s = Some g \<Longrightarrow> \<exists>ds. g = backslash # ds"
  by (auto simp: matchTimeAt_def split: list.splits if_splits option.splits
      dest: matchGroup_backslash)

lemma matchThroughputAt_backslash: "matchThroughputAt s = Some g \<Longrightarrow> \<exists>ds. g = backslash # ds"
  by (auto simp: matchThroughputAt_def split: list.splits if_splits option.splits
      dest: matchGroup_backslash)

lemma firstMatch_SomeD: "firstMatch m s = Some g \<Longrightarrow> \<exists>u. m u = Some g"
  by (induction s) (auto split: option.splits)

lemma parseInt_backslash: "parseInt (backslash # ds) = None"
  by (simp add: parseInt_def parseUnsigned_def parseDigits_def isDigit_def digitValue_def
      backslash_def isSpace_def Let_def)

lemma timeMatch_NaN: "timeMatch r = Some g \<Longrightarrow> parseInt g = None"
  unfolding timeMatch_def
  by (auto dest!: firstMatch_SomeD matchTimeAt_backslash simp: parseInt_backslash)

lemma throughputMatch_NaN: "throughputMatch r = Some g \<Longrightarrow> parseInt g = None"
  unfolding throughputMatch_def
  by (auto dest!: firstMatch_SomeD matchThroughputAt_backslash simp: parseInt_backslash)

lemma PerformanceChecker_check_never_reports:
  "PerformanceChecker_check code ts requirement =
     \<lparr>passed = True, issues = [], critical = False, coverage = None\<rparr>"
proof -
  have 1: "(case timeMatch requirement of None \<Rightarrow> [] | Some g \<Rightarrow> responseTimeIssues (parseInt g) a) = []"
    for a
    by (auto split: option.split dest: timeMatch_NaN simp: responseTimeIssues_def)
  have 2: "(case throughputMatch requirement of None \<Rightarrow> []
            | Some g \<Rightarrow> concurrencyIssues (parseInt g) a) = []" for a
    by (auto split: option.split dest: throughputMatch_NaN simp: concurrencyIssues_def)
  show ?thesis
    by (simp add: PerformanceChecker_check_def Let_def 1 2 someCritical_def)
qed

lemma timeMatch_example: "timeMatch ''< 100ms'' = None"
  by code_simp

































text \<open>
  The comparisons of the performance checker on a target that was parsed: nothing at or
  under the target, a warning above it up to twice the target, a critical issue beyond.
\<close>

lemma responseTimeIssues_policy:
  "responseTimeIssues (Some target) actual =
     (if actual \<le> target then []
      else if actual \<le> target * 2
      then [mkIssue (''Response time '' @ String_int actual @ ''ms exceeds target ''
                      @ String_int target @ ''ms'') ''warning'']
      else [mkIssue (''Response time '' @ String_int actual @ ''ms exceeds target ''
                      @ String_int target @ ''ms'') ''critical''])"
  by (simp add: responseTimeIssues_def)

definition measured :: "int \<Rightarrow> tests" where
  "measured ms =
     \<lparr>t_coverage = None, unitTests = None, integrationTests = None, e2eTests = None,
      failed = None,
      performance = Some \<lparr>avgResponseTime = Some ms, concurrentCapacity = None\<rparr>,
      security = None\<rparr>"

text \<open>
  C6. With the requirement \<open>< 100ms\<close> and a measured response time of 250 ms (more than
  twice the target) or of 150 ms (over the target), the performance checker finds no
  target in the requirement, reports no issue and passes.
\<close>

theorem PerformanceChecker_check_target_not_parsed:
  "timeMatch ''< 100ms'' = None
   \<and> PerformanceChecker_check () (Some (measured 250)) ''< 100ms'' =
       \<lparr>passed = True, issues = [], critical = False, coverage = None\<rparr>
   \<and> PerformanceChecker_check () (Some (measured 150)) ''< 100ms'' =
       \<lparr>passed = True, issues = [], critical = False, coverage = None\<rparr>"
  by (simp add: timeMatch_example PerformanceChecker_check_never_reports)

section \<open>The team manager (skills/executing-as-team/lib/team-manager.js)\<close>

text \<open>
  The result of an alignment check, as the manager and the milestone report read it:
  a status, a reason, the issues and the per-category details, each of which may be
  absent.
\<close>

record alignment =
  status :: "string option"
  al_reason :: "string option"
  al_issues :: "issue list option"
  al_details :: "(string \<times> checkResult) list option"

record completedTask =
  ct_task :: task
  ct_alignment :: "alignment option"

text \<open>An entry of the \<open>taskResults\<close> map.\<close>

datatype resultEntry =
    Succeeded "alignment option"
  | Failed string "string option list"

record teamManager =
  plan_tasks :: "task list option"
  completedTasks :: "completedTask list"
  blockedTasks :: "string option list"
  runningTasks :: "string option list"
  taskResults :: "(string option \<times> resultEntry) list"

text \<open>The state the constructor leaves.\<close>

definition newTeamManager :: "task list option \<Rightarrow> teamManager" where
  "newTeamManager tasks =
     \<lparr>plan_tasks = tasks, completedTasks = [], blockedTasks = [], runningTasks = [],
      taskResults = []\<rparr>"

text \<open>
  The loop of \<open>handleTaskFailure\<close>:
  \<open>if (!this.blockedTasks.includes(depId)) this.blockedTasks.push(depId)\<close>.
\<close>

definition blockDependent :: "string option \<Rightarrow> string option list \<Rightarrow> string option list" where
  "blockDependent depId blocked = (if depId \<in> set blocked then blocked else blocked @ [depId])"

record failure =
  f_taskId :: "string option"
  f_error :: string
  blockedDependents :: "string option list"

text \<open>
  \<open>handleTaskFailure\<close>: the dependents are read with the manager's own
  \<open>getDependentTasks\<close> (the same body as the helper's) under \<open>task.id\<close>.
\<close>

definition handleTaskFailure :: "task \<Rightarrow> string \<Rightarrow> teamManager \<Rightarrow> failure \<times> teamManager" where
  "handleTaskFailure t err m =
     (let groups = groupTasksForTeams (plan_tasks m);
          deps = getDependentTasks (task_id t) (dependencyGraph groups);
          m1 = (if length deps > 0
                then m\<lparr>blockedTasks := fold blockDependent deps (blockedTasks m)\<rparr>
                else m);
          m2 = m1\<lparr>taskResults := AList.update (task_id t) (Failed err deps) (taskResults m1)\<rparr>
      in (\<lparr>f_taskId = task_id t, f_error = err, blockedDependents = deps\<rparr>, m2))"

lemma dependencyGraph_groupTasksForTeams:
  "dependencyGraph (groupTasksForTeams tasks) = buildDependencyGraph (taskList tasks)"
  by (cases tasks)
    (simp_all add: groupTasksForTeams_def taskList_def buildDependencyGraph_def Let_def)

lemma set_blockDependent: "set (blockDependent d b) = insert d (set b)"
  by (auto simp: blockDependent_def)

lemma count_blockDependent:
  "count_list (blockDependent d b) x =
     (if x \<in> set b then count_list b x else if x = d then 1 else 0)"
  by (auto simp: blockDependent_def count_list_0_iff)

lemma distinct_blockDependent: "distinct b \<Longrightarrow> distinct (blockDependent d b)"
  by (simp add: blockDependent_def)

lemma set_fold_blockDependent:
  "set (fold blockDependent ds b) = set b \<union> set ds"
  by (induction ds arbitrary: b) (auto simp: set_blockDependent)

lemma count_fold_blockDependent:
  "count_list (fold blockDependent ds b) x =
     (if x \<in> set b then count_list b x else if x \<in> set ds then 1 else 0)"
proof (induction ds arbitrary: b)
  case Nil
  show ?case by (simp add: count_list_0_iff)
next
  case (Cons d ds)
  show ?case
    by (simp add: Cons.IH set_blockDependent count_blockDependent)
qed

lemma distinct_fold_blockDependent:
  "distinct b \<Longrightarrow> distinct (fold blockDependent ds b)"
  by (induction ds arbitrary: b) (simp_all add: distinct_blockDependent)

lemma blockedTasks_handleTaskFailure:
  "blockedTasks (snd (handleTaskFailure t err m)) =
     fold blockDependent
       (getDependentTasks (task_id t) (buildDependencyGraph (taskList (plan_tasks m))))
       (blockedTasks m)"
  by (cases "getDependentTasks (task_id t) (buildDependencyGraph (taskList (plan_tasks m)))")
    (simp_all add: handleTaskFailure_def Let_def dependencyGraph_groupTasksForTeams)

text \<open>
  C1 (amended). The failure handler reads the direct dependents of the failed task from
  the reverse-edge graph (the ids of the tasks that declare the failed task's id) and
  adds each of them to the blocked list unless it is there already: a dependent that was
  not blocked before is in the list exactly once afterwards, the other entries keep their
  number of occurrences, and a list without repetition stays so. For the diamond, the
  failure of task 1 leaves the blocked list \<open>[2, 3]\<close>.
\<close>

theorem handleTaskFailure_blocks_direct_dependents:
  fixes m :: teamManager and t :: task and err :: string
  defines "ts \<equiv> taskList (plan_tasks m)"
  defines "m' \<equiv> snd (handleTaskFailure t err m)"
  shows "(d \<in> set (blockedDependents (fst (handleTaskFailure t err m))) \<longleftrightarrow>
            task_id t \<in> taskKey ` set ts
            \<and> (\<exists>t' \<in> set ts. taskKey t' = d \<and> task_id t \<in> Some ` set (depsOrEmpty t')))
       \<and> set (blockedTasks m') =
            set (blockedTasks m) \<union> set (blockedDependents (fst (handleTaskFailure t err m)))
       \<and> (d \<in> set (blockedDependents (fst (handleTaskFailure t err m)))
            \<and> d \<notin> set (blockedTasks m) \<longrightarrow> count_list (blockedTasks m') d = 1)
       \<and> (d \<in> set (blockedTasks m) \<longrightarrow>
            count_list (blockedTasks m') d = count_list (blockedTasks m) d)
       \<and> (distinct (blockedTasks m) \<longrightarrow> distinct (blockedTasks m'))"
proof -
  let ?ds = "getDependentTasks (task_id t) (buildDependencyGraph ts)"
  have fst_eq: "blockedDependents (fst (handleTaskFailure t err m)) = ?ds"
    by (simp add: handleTaskFailure_def Let_def dependencyGraph_groupTasksForTeams ts_def)
  have b: "blockedTasks m' = fold blockDependent ?ds (blockedTasks m)"
    unfolding m'_def ts_def by (rule blockedTasks_handleTaskFailure)
  have 1: "d \<in> set ?ds \<longleftrightarrow>
            task_id t \<in> taskKey ` set ts
            \<and> (\<exists>t' \<in> set ts. taskKey t' = d \<and> task_id t \<in> Some ` set (depsOrEmpty t'))"
    by (auto simp: getDependentTasks_buildDependencyGraph set_dependentsOf)
  have 5: "distinct (blockedTasks m')" if "distinct (blockedTasks m)"
    unfolding b using that by (rule distinct_fold_blockDependent)
  show ?thesis
    unfolding fst_eq using 1 5
    by (simp add: b set_fold_blockDependent count_fold_blockDependent)
qed

theorem handleTaskFailure_diamond_witness:
  "blockedDependents (fst (handleTaskFailure (mkTask ''1'' []) ''failed''
        (newTeamManager (Some diamond)))) = [Some ''2'', Some ''3'']
   \<and> blockedTasks (snd (handleTaskFailure (mkTask ''1'' []) ''failed''
        (newTeamManager (Some diamond)))) = [Some ''2'', Some ''3'']
   \<and> count_list (blockedTasks (snd (handleTaskFailure (mkTask ''1'' []) ''failed''
        (newTeamManager (Some diamond))))) (Some ''2'') = 1"
  using handleTaskFailure_blocks_direct_dependents
    [of "Some ''2''" "mkTask ''1'' []" "''failed''" "newTeamManager (Some diamond)"]
  by (simp add: blockedTasks_handleTaskFailure handleTaskFailure_def Let_def
      dependencyGraph_groupTasksForTeams newTeamManager_def taskList_def
      getDependentTasks_buildDependencyGraph dependentsOf_def diamond_def mkTask_def
      taskKey_def truthy_def depsOrEmpty_def blockDependent_def)

text \<open>
  C1 as stated fails on the diamond: task 4 depends on task 2, which depends on task 1,
  and the failure of task 1 does not put task 4 on the blocked list.
\<close>

theorem handleTaskFailure_diamond_counterexample:
  "Some ''4'' \<in> set (getDependentTasks (Some ''2'') (buildDependencyGraph diamond))
   \<and> Some ''2'' \<in> set (getDependentTasks (Some ''1'') (buildDependencyGraph diamond))
   \<and> count_list (blockedTasks (snd (handleTaskFailure (mkTask ''1'' []) ''failed''
        (newTeamManager (Some diamond))))) (Some ''4'') = 0"
  by (simp add: blockedTasks_handleTaskFailure newTeamManager_def taskList_def
      getDependentTasks_buildDependencyGraph dependentsOf_def diamond_def mkTask_def
      taskKey_def truthy_def depsOrEmpty_def blockDependent_def)

section \<open>Percentages in double precision\<close>

text \<open>
  \<open>Math.round((a / t) * 100)\<close> is computed on IEEE 754 binary64 numbers: the quotient is
  rounded to the nearest double, the product is rounded again, and \<open>Math.round\<close> takes
  the nearest integer of that double, ties upwards. The doubles involved are finite and
  normal (the operands are list lengths), so each is a rational \<open>m / 2 ^ s\<close> or
  \<open>m * 2 ^ s\<close> with a mantissa \<open>m\<close> of 53 bits, found by rounding to nearest, ties to
  the even mantissa.
\<close>

function ilog2 :: "int \<Rightarrow> int" where
  "ilog2 n = (if n < 2 then 0 else 1 + ilog2 (n div 2))"
  by pat_completeness auto
termination
  by (relation "measure nat") auto

declare ilog2.simps [simp del]

definition roundTiesToEven :: "int \<Rightarrow> int \<Rightarrow> int" where
  "roundTiesToEven n d =
     (let q = n div d; r = n mod d
      in if 2 * r < d then q else if d < 2 * r then q + 1
         else if even q then q else q + 1)"

definition pow2 :: "int \<Rightarrow> int" where
  "pow2 k = 2 ^ nat k"

text \<open>The double nearest to \<open>p / q\<close>, for \<open>p \<ge> 0\<close> and \<open>q > 0\<close>.\<close>

definition toDouble :: "int \<Rightarrow> int \<Rightarrow> rat" where
  "toDouble p q =
     (if p = 0 then 0
      else
        let e = ilog2 p - ilog2 q
                - (if p * pow2 (ilog2 q) < q * pow2 (ilog2 p) then 1 else 0);
            s = 52 - e
        in if 0 \<le> s
           then of_int (roundTiesToEven (p * pow2 s) q) / of_int (pow2 s)
           else of_int (roundTiesToEven p (q * pow2 (- s))) * of_int (pow2 (- s)))"

definition roundDouble :: "rat \<Rightarrow> rat" where
  "roundDouble x = (case quotient_of x of (p, q) \<Rightarrow> toDouble p q)"

definition Math_round :: "rat \<Rightarrow> int" where
  "Math_round x = \<lfloor>x + 1 / 2\<rfloor>"

text \<open>\<open>Math.round((a / t) * 100)\<close> for two list lengths.\<close>

definition percent :: "nat \<Rightarrow> nat \<Rightarrow> int" where
  "percent a t = Math_round (roundDouble (toDouble (int a) (int t) * 100))"

section \<open>The milestone report (skills/goal-alignment-monitor/lib/alert-system.js)\<close>

record taskResult =
  r_id :: "string option"
  r_taskId :: "string option"
  r_alignment :: "alignment option"
  r_goalTags :: "(string \<Rightarrow> string option) option"

record reportOptions =
  o_taskResults :: "taskResult list option"
  o_goals :: "(string \<times> string) list option"
  o_milestoneName :: "string option"

record recommendation =
  rec_type :: string
  priority :: string
  rec_message :: string

record achievement =
  target :: string
  ach_aligned :: nat
  ach_total :: nat
  percentage :: int

record reportSummary =
  s_totalTasks :: nat
  s_aligned :: nat
  s_misaligned :: nat
  s_notChecked :: nat
  score :: int

record detail =
  d_id :: "string option"
  d_status :: string
  d_issues :: nat

record milestoneReport =
  milestone :: string
  timestamp :: string
  summary :: reportSummary
  report_status :: string
  goalAchievements :: "(string \<times> achievement) list"
  recommendations :: "recommendation list"
  report_details :: "detail list"

text \<open>\<open>r.alignment?.status\<close>, and \<open>r.id || r.taskId\<close>.\<close>

definition alignmentStatus :: "taskResult \<Rightarrow> string option" where
  "alignmentStatus r = (case r_alignment r of None \<Rightarrow> None | Some a \<Rightarrow> status a)"

definition resultId :: "taskResult \<Rightarrow> string option" where
  "resultId r = (if truthy (r_id r) then r_id r else r_taskId r)"

text \<open>\<open>Array.prototype.join\<close>: an absent element is rendered as the empty string.\<close>

fun join :: "string \<Rightarrow> string option list \<Rightarrow> string" where
  "join sep [] = []"
| "join sep [x] = (case x of None \<Rightarrow> [] | Some s \<Rightarrow> s)"
| "join sep (x # y # ys) = (case x of None \<Rightarrow> [] | Some s \<Rightarrow> s) @ sep @ join sep (y # ys)"

definition goalAchievement :: "taskResult list \<Rightarrow> string \<times> string \<Rightarrow> string \<times> achievement" where
  "goalAchievement rs goal =
     (case goal of (goalKey, goalValue) \<Rightarrow>
        let relevantTasks =
              filter (\<lambda>r. case r_goalTags r of None \<Rightarrow> False | Some tags \<Rightarrow> truthy (tags goalKey))
                rs;
            goalAligned =
              length (filter
                (\<lambda>r. case r_alignment r of
                        None \<Rightarrow> False
                      | Some a \<Rightarrow>
                          (case al_details a of
                             None \<Rightarrow> False
                           | Some ds \<Rightarrow>
                               (case map_of ds goalKey of None \<Rightarrow> False | Some c \<Rightarrow> passed c)))
                relevantTasks)
        in (goalKey,
            \<lparr>target = goalValue, ach_aligned = goalAligned, ach_total = length relevantTasks,
             percentage = (if length relevantTasks > 0
                           then percent goalAligned (length relevantTasks) else 100)\<rparr>))"

text \<open>
  \<open>generateMilestoneReport\<close>; the clock reading of \<open>new Date().toISOString()\<close> is the
  argument \<open>now\<close>.
\<close>

definition generateMilestoneReport :: "string \<Rightarrow> reportOptions \<Rightarrow> milestoneReport" where
  "generateMilestoneReport now options =
     (let taskResults = (case o_taskResults options of None \<Rightarrow> [] | Some rs \<Rightarrow> rs);
          goals = (case o_goals options of None \<Rightarrow> [] | Some gs \<Rightarrow> gs);
          milestoneName = (case o_milestoneName options of None \<Rightarrow> ''Milestone'' | Some n \<Rightarrow> n);
          aligned = length (filter (\<lambda>r. alignmentStatus r = Some ''aligned'') taskResults);
          misaligned = length (filter (\<lambda>r. alignmentStatus r = Some ''misaligned'') taskResults);
          notChecked = length (filter (\<lambda>r. r_alignment r = None) taskResults);
          total = length taskResults;
          sc = (if total > 0 then percent aligned total else 0);
          misalignedTasks =
            map resultId (filter (\<lambda>r. alignmentStatus r = Some ''misaligned'') taskResults);
          recs =
            (if misaligned > 0
             then [\<lparr>rec_type = ''fix-misaligned'', priority = ''high'',
                    rec_message = ''Review and fix '' @ String_nat (length misalignedTasks)
                      @ '' misaligned task(s): '' @ join '', '' misalignedTasks\<rparr>]
             else [])
            @ (if sc < 80
               then [\<lparr>rec_type = ''improve-alignment'', priority = ''medium'',
                      rec_message = ''Alignment score '' @ String_int sc
                        @ ''% is below 80% target''\<rparr>]
               else [])
      in \<lparr>milestone = milestoneName,
          timestamp = now,
          summary = \<lparr>s_totalTasks = total, s_aligned = aligned, s_misaligned = misaligned,
                     s_notChecked = notChecked, score = sc\<rparr>,
          report_status = (if sc \<ge> 90 then ''aligned''
                           else if sc \<ge> 70 then ''partial'' else ''misaligned''),
          goalAchievements = map (goalAchievement taskResults) goals,
          recommendations = recs,
          report_details =
            map (\<lambda>r. \<lparr>d_id = resultId r,
                       d_status = (if truthy (alignmentStatus r) then the (alignmentStatus r)
                                   else ''not-checked''),
                       d_issues = (case r_alignment r of
                                     None \<Rightarrow> 0
                                   | Some a \<Rightarrow> (case al_issues a of None \<Rightarrow> 0
                                               | Some xs \<Rightarrow> length xs))\<rparr>)
              taskResults\<rparr>)"

section \<open>The team manager: oversight check and summary\<close>

text \<open>
  The result a teammate returns (its payload of code and tests is only handed on to the
  oversight agent), the result of the dispatcher, and the oversight agent:
  \<open>checkAlignment\<close> either returns an alignment or throws an error with a message
  (\<open>Inl\<close>).
\<close>

record outcome =
  success :: bool
  o_error :: string

record dispatchResult =
  dr_success :: bool
  dr_error :: string
  dr_result :: outcome

type_synonym oversight = "task \<Rightarrow> outcome \<Rightarrow> string + alignment"

definition runOversightCheck :: "oversight option \<Rightarrow> task \<Rightarrow> outcome \<Rightarrow> alignment" where
  "runOversightCheck ov t result =
     (case ov of
        None \<Rightarrow> \<lparr>status = Some ''not-checked'', al_reason = Some ''No oversight agent'',
                 al_issues = None, al_details = None\<rparr>
      | Some checkAlignment \<Rightarrow>
          (case checkAlignment t result of
             Inr a \<Rightarrow> a
           | Inl msg \<Rightarrow> \<lparr>status = Some ''error'', al_reason = Some msg,
                          al_issues = None, al_details = None\<rparr>))"

text \<open>
  \<open>dispatchAndMonitor\<close>, with the dispatcher as a function of the task and of the ids of
  the completed tasks it is given as context. The returned value is the failure record or
  the teammate's result.
\<close>

definition dispatchAndMonitor ::
  "(task \<Rightarrow> string option list \<Rightarrow> dispatchResult) \<Rightarrow> oversight option \<Rightarrow> task \<Rightarrow> teamManager
   \<Rightarrow> (failure + outcome) \<times> teamManager" where
  "dispatchAndMonitor dispatch ov t m =
     (let dr = dispatch t (map (\<lambda>c. task_id (ct_task c)) (completedTasks m)) in
      if \<not> dr_success dr then
        (case handleTaskFailure t (dr_error dr) m of (f, m') \<Rightarrow> (Inl f, m'))
      else
        let m1 = m\<lparr>runningTasks := runningTasks m @ [task_id t]\<rparr>;
            result = dr_result dr;
            m2 = m1\<lparr>runningTasks := filter (\<lambda>i. i \<noteq> task_id t) (runningTasks m1)\<rparr>
        in if success result then
             let a = runOversightCheck ov t result in
             (Inr result,
              m2\<lparr>completedTasks := completedTasks m2 @ [\<lparr>ct_task = t, ct_alignment = Some a\<rparr>],
                 taskResults := AList.update (task_id t) (Succeeded (Some a)) (taskResults m2)\<rparr>)
           else
             (Inr result, snd (handleTaskFailure t (o_error result) m2)))"

record executionSummary =
  sum_totalTasks :: nat
  sum_completedTasks :: nat
  sum_blockedTasks :: nat
  alignedTasks :: nat
  misalignedTasks :: nat
  completionRate :: int
  alignmentRate :: int

definition completedStatus :: "completedTask \<Rightarrow> string option" where
  "completedStatus c = (case ct_alignment c of None \<Rightarrow> None | Some a \<Rightarrow> status a)"

definition generateSummary :: "teamManager \<Rightarrow> executionSummary" where
  "generateSummary m =
     (let completed = length (completedTasks m);
          blocked = length (blockedTasks m);
          total = (case plan_tasks m of None \<Rightarrow> 0 | Some ts \<Rightarrow> length ts);
          aligned = length (filter (\<lambda>c. completedStatus c = Some ''aligned'') (completedTasks m));
          misaligned =
            length (filter (\<lambda>c. completedStatus c = Some ''misaligned'') (completedTasks m))
      in \<lparr>sum_totalTasks = total, sum_completedTasks = completed, sum_blockedTasks = blocked,
          alignedTasks = aligned, misalignedTasks = misaligned,
          completionRate = (if total > 0 then percent completed total else 0),
          alignmentRate = (if completed > 0 then percent aligned completed else 0)\<rparr>)"

section \<open>Accuracy of the double-precision percentage\<close>

lemma ilog2_bounds:
  "1 \<le> n \<Longrightarrow> 0 \<le> ilog2 n \<and> 2 ^ nat (ilog2 n) \<le> n \<and> n < 2 * 2 ^ nat (ilog2 n)"
proof (induction n rule: ilog2.induct)
  case (1 n)
  show ?case
  proof (cases "n < 2")
    case True
    with "1.prems" have "n = 1" by simp
    then show ?thesis by (simp add: ilog2.simps)
  next
    case False
    then have h: "1 \<le> n div 2" by simp
    from "1.IH" [OF False h] have l: "0 \<le> ilog2 (n div 2)"
      and lo: "2 ^ nat (ilog2 (n div 2)) \<le> n div 2"
      and hi: "n div 2 < 2 * 2 ^ nat (ilog2 (n div 2))" by simp_all
    have e: "ilog2 n = 1 + ilog2 (n div 2)"
      using False by (subst ilog2.simps) simp
    have n: "nat (1 + ilog2 (n div 2)) = Suc (nat (ilog2 (n div 2)))"
      using l by simp
    have "2 * (n div 2) \<le> n" "n < 2 * (n div 2) + 2" by simp_all
    with lo hi l show ?thesis
      unfolding e n by simp
  qed
qed

lemma roundTiesToEven_int:
  assumes "0 < d"
  shows "2 * \<bar>roundTiesToEven n d * d - n\<bar> \<le> d"
proof -
  have n: "n = (n div d) * d + n mod d" by simp
  have r: "0 \<le> n mod d" "n mod d < d" using assms by simp_all
  have a: "(n div d) * d - n = - (n mod d)"
    using n by linarith
  have b: "(n div d + 1) * d - n = d - n mod d"
    using n by (simp add: algebra_simps)
  show ?thesis
    using r by (auto simp: roundTiesToEven_def Let_def a b)
qed

lemma roundTiesToEven_rat:
  assumes "0 < d"
  shows "\<bar>(of_int (roundTiesToEven n d) :: rat) - of_int n / of_int d\<bar> \<le> 1 / 2"
proof -
  define k where "k = roundTiesToEven n d * d - n"
  have d: "(0::rat) < of_int d" using assms by simp
  have 1: "(of_int (roundTiesToEven n d) :: rat) - of_int n / of_int d = of_int k / of_int d"
    using d by (simp add: k_def field_simps)
  have 2: "\<bar>(of_int k :: rat) / of_int d\<bar> = \<bar>of_int k\<bar> / of_int d"
    using d by (simp only: abs_divide abs_of_pos)
  have "\<bar>(of_int k :: rat)\<bar> / of_int d \<le> 1 / 2"
  proof -
    from roundTiesToEven_int [OF assms, of n] have "2 * \<bar>k\<bar> \<le> d"
      by (simp only: k_def)
    then have "(of_int (2 * \<bar>k\<bar>) :: rat) \<le> of_int d"
      by (simp only: of_int_le_iff)
    then have "2 * \<bar>(of_int k :: rat)\<bar> \<le> of_int d" by simp
    with d show ?thesis by (simp add: field_simps)
  qed
  then show ?thesis unfolding 1 2 .
qed

text \<open>The binary exponent \<open>toDouble\<close> computes for \<open>p / q\<close>.\<close>

definition binade :: "int \<Rightarrow> int \<Rightarrow> int" where
  "binade p q =
     ilog2 p - ilog2 q - (if p * pow2 (ilog2 q) < q * pow2 (ilog2 p) then 1 else 0)"

lemma pow2_powi: "0 \<le> k \<Longrightarrow> (of_int (pow2 k) :: rat) = 2 powi k"
  by (simp add: pow2_def power_int_def)

lemma pow2_pos: "0 < pow2 k"
  by (simp add: pow2_def)

lemma ilog2_powi:
  assumes "1 \<le> n"
  shows "(2::rat) powi ilog2 n \<le> of_int n" and "(of_int n :: rat) < 2 powi (ilog2 n + 1)"
proof -
  from ilog2_bounds [OF assms] have l: "0 \<le> ilog2 n" and lo: "2 ^ nat (ilog2 n) \<le> n"
    and hi: "n < 2 * 2 ^ nat (ilog2 n)" by simp_all
  from lo have "(of_int (2 ^ nat (ilog2 n)) :: rat) \<le> of_int n"
    by (simp only: of_int_le_iff)
  then show "(2::rat) powi ilog2 n \<le> of_int n"
    using l by (simp add: power_int_def)
  from hi have "(of_int n :: rat) < of_int (2 * 2 ^ nat (ilog2 n))"
    by (simp only: of_int_less_iff)
  moreover have "(2::rat) powi (ilog2 n + 1) = 2 * 2 ^ nat (ilog2 n)"
    using l by (simp add: power_int_def nat_add_distrib)
  ultimately show "(of_int n :: rat) < 2 powi (ilog2 n + 1)" by simp
qed

lemma binade_le:
  assumes p: "0 < p" and q: "0 < q"
  shows "(2::rat) powi binade p q \<le> of_int p / of_int q"
proof -
  have p1: "1 \<le> p" and q1: "1 \<le> q" using p q by simp_all
  note lp = ilog2_powi [OF p1] and lq = ilog2_powi [OF q1]
  have lp0: "0 \<le> ilog2 p" and lq0: "0 \<le> ilog2 q"
    using ilog2_bounds [OF p1] ilog2_bounds [OF q1] by simp_all
  have qpos: "(0::rat) < of_int q" and ppos: "(0::rat) < of_int p" using p q by simp_all
  show ?thesis
  proof (cases "p * pow2 (ilog2 q) < q * pow2 (ilog2 p)")
    case True
    then have b: "binade p q = ilog2 p - (ilog2 q + 1)"
      by (simp add: binade_def)
    have "(2::rat) powi binade p q = 2 powi ilog2 p / 2 powi (ilog2 q + 1)"
      unfolding b by (rule power_int_diff) simp
    also have "\<dots> \<le> of_int p / 2 powi (ilog2 q + 1)"
      using lp(1) by (simp add: divide_right_mono)
    also have "\<dots> \<le> of_int p / of_int q"
      using lq(2) ppos qpos by (simp add: frac_le)
    finally show ?thesis .
  next
    case False
    then have b: "binade p q = ilog2 p - ilog2 q"
      by (simp add: binade_def)
    from False have "q * pow2 (ilog2 p) \<le> p * pow2 (ilog2 q)" by simp
    then have "(of_int (q * pow2 (ilog2 p)) :: rat) \<le> of_int (p * pow2 (ilog2 q))"
      by (simp only: of_int_le_iff)
    then have le: "(of_int q :: rat) * 2 powi ilog2 p \<le> of_int p * 2 powi ilog2 q"
      by (simp add: pow2_powi lp0 lq0)
    have "(2::rat) powi binade p q = 2 powi ilog2 p / 2 powi ilog2 q"
      unfolding b by (rule power_int_diff) simp
    also have "\<dots> \<le> of_int p / of_int q"
      using le qpos by (simp add: field_simps)
    finally show ?thesis .
  qed
qed

lemma toDouble_binade:
  "toDouble p q =
     (if p = 0 then 0
      else if 0 \<le> 52 - binade p q
      then of_int (roundTiesToEven (p * pow2 (52 - binade p q)) q) / of_int (pow2 (52 - binade p q))
      else of_int (roundTiesToEven p (q * pow2 (- (52 - binade p q))))
           * of_int (pow2 (- (52 - binade p q))))"
  by (simp add: toDouble_def binade_def Let_def)

lemma toDouble_mantissa:
  assumes p: "0 < p" and q: "0 < q"
  shows "\<exists>m. toDouble p q = of_int m * 2 powi (binade p q - 52)
           \<and> \<bar>(of_int m :: rat) - of_int p / of_int q * 2 powi (52 - binade p q)\<bar> \<le> 1 / 2"
proof (cases "0 \<le> 52 - binade p q")
  case True
  let ?s = "52 - binade p q"
  let ?m = "roundTiesToEven (p * pow2 ?s) q"
  have "toDouble p q = of_int ?m / 2 powi ?s"
    using p True by (simp add: toDouble_binade pow2_powi)
  also have "\<dots> = of_int ?m * 2 powi (binade p q - 52)"
    using power_int_minus_divide [of "2::rat" ?s] by (simp add: field_simps)
  finally have 1: "toDouble p q = of_int ?m * 2 powi (binade p q - 52)" .
  have eq: "(of_int (p * pow2 ?s) :: rat) / of_int q = of_int p / of_int q * 2 powi ?s"
    using True by (simp add: pow2_powi)
  have 2: "\<bar>(of_int ?m :: rat) - of_int p / of_int q * 2 powi ?s\<bar> \<le> 1 / 2"
    using roundTiesToEven_rat [OF q, of "p * pow2 ?s"] unfolding eq .
  from 1 2 show ?thesis by blast
next
  case False
  let ?s = "52 - binade p q"
  let ?m = "roundTiesToEven p (q * pow2 (- ?s))"
  from False have neg: "0 \<le> - ?s" by simp
  have "toDouble p q = of_int ?m * 2 powi (- ?s)"
    using p False pow2_powi [OF neg] by (simp add: toDouble_binade)
  then have 1: "toDouble p q = of_int ?m * 2 powi (binade p q - 52)" by simp
  have d: "0 < q * pow2 (- ?s)" using q pow2_pos by simp
  have "(2::rat) powi ?s = 1 / 2 powi (- ?s)"
    using power_int_minus_divide [of "2::rat" "- ?s"] by simp
  then have eq: "(of_int p :: rat) / of_int (q * pow2 (- ?s)) = of_int p / of_int q * 2 powi ?s"
    using pow2_powi [OF neg] by simp
  have 2: "\<bar>(of_int ?m :: rat) - of_int p / of_int q * 2 powi ?s\<bar> \<le> 1 / 2"
    using roundTiesToEven_rat [OF d, of p] unfolding eq .
  from 1 2 show ?thesis by blast
qed

lemma toDouble_relative_error:
  assumes p: "0 < p" and q: "0 < q"
  shows "\<bar>toDouble p q - of_int p / of_int q\<bar> \<le> of_int p / of_int q / 2 ^ 53"
proof -
  let ?x = "(of_int p :: rat) / of_int q"
  let ?e = "binade p q"
  from toDouble_mantissa [OF p q] obtain m where
    t: "toDouble p q = of_int m * 2 powi (?e - 52)"
    and m: "\<bar>(of_int m :: rat) - ?x * 2 powi (52 - ?e)\<bar> \<le> 1 / 2" by blast
  have u: "(2::rat) powi (52 - ?e) * 2 powi (?e - 52) = 1"
    using power_int_add [of "2::rat" "52 - ?e" "?e - 52"] by simp
  have pos: "(0::rat) < 2 powi (?e - 52)" by simp
  have "toDouble p q - ?x = (of_int m - ?x * 2 powi (52 - ?e)) * 2 powi (?e - 52)"
    using u by (simp add: t algebra_simps)
  then have "\<bar>toDouble p q - ?x\<bar> = \<bar>of_int m - ?x * 2 powi (52 - ?e)\<bar> * 2 powi (?e - 52)"
    using pos by (simp add: abs_mult)
  also have "\<dots> \<le> 1 / 2 * 2 powi (?e - 52)"
    using m pos by (simp add: mult_right_mono)
  also have "\<dots> = 2 powi ?e / 2 ^ 53"
  proof -
    have "(2::rat) powi (?e - 52) = 2 powi ?e / 2 powi 52"
      by (rule power_int_diff) simp
    then show ?thesis by simp
  qed
  also have "\<dots> \<le> ?x / 2 ^ 53"
    using binade_le [OF p q] by (simp add: divide_right_mono)
  finally show ?thesis .
qed

lemma toDouble_zero: "toDouble 0 q = 0"
  by (simp add: toDouble_def)

lemma roundDouble_relative_error:
  assumes "0 < x"
  shows "\<bar>roundDouble x - x\<bar> \<le> x / 2 ^ 53"
proof -
  obtain p q where pq: "quotient_of x = (p, q)" by (cases "quotient_of x")
  then have q: "0 < q" by (rule quotient_of_denom_pos)
  from pq have x: "x = of_int p / of_int q" by (rule quotient_of_div)
  have p: "0 < p"
  proof (rule ccontr)
    assume "\<not> 0 < p"
    then have "(of_int p :: rat) \<le> 0" by simp
    with q have "(of_int p :: rat) / of_int q \<le> 0"
      by (simp add: divide_nonpos_pos)
    with assms x show False by simp
  qed
  have r: "roundDouble x = toDouble p q"
    by (simp add: roundDouble_def pq)
  from toDouble_relative_error [OF p q] show ?thesis
    unfolding r by (simp only: x [symmetric])
qed

text \<open>
  The double-precision product \<open>(a / t) * 100\<close> lies within \<open>201 / 2 ^ 53\<close> of the exact
  percentage.
\<close>

lemma product_error:
  assumes t: "0 < t" and a: "a \<le> t"
  shows "\<bar>roundDouble (toDouble (int a) (int t) * 100) - of_nat a / of_nat t * 100\<bar>
           \<le> 201 / 2 ^ 53"
proof (cases "a = 0")
  case True
  have "quotient_of 0 = (0, 1)" by simp
  then have "roundDouble 0 = 0"
    by (simp add: roundDouble_def toDouble_zero)
  with True show ?thesis by (simp add: toDouble_zero)
next
  case False
  define x :: rat where "x = of_nat a / of_nat t"
  define d where "d = toDouble (int a) (int t)"
  have x01: "0 < x" "x \<le> 1"
    using False t a by (simp_all add: x_def)
  have ia: "0 < int a" and it: "0 < int t" using False t by simp_all
  have rel: "\<bar>d - x\<bar> \<le> x / 2 ^ 53"
    using toDouble_relative_error [OF ia it]
    by (simp only: d_def x_def of_int_of_nat_eq)
  define u :: rat where "u = 1 / 2 ^ 53"
  have u: "0 < u" "u < 1" and u100: "u * 100 \<le> 1" by (simp_all add: u_def)
  have xu: "x / 2 ^ 53 = x * u" by (simp add: u_def)
  have "x * u \<le> 1 * u" using x01 u by (intro mult_right_mono) simp_all
  with rel have dx: "\<bar>d - x\<bar> \<le> u" unfolding xu by simp
  have "x * u < x * 1" using x01 u by (intro mult_strict_left_mono) simp_all
  with rel have dpos: "0 < d" unfolding xu by linarith
  from dx x01 have dle: "d \<le> 1 + u" by linarith
  have d100: "0 < d * 100" using dpos by simp
  have "\<bar>roundDouble (d * 100) - d * 100\<bar> \<le> d * 100 * u"
    using roundDouble_relative_error [OF d100] by (simp only: u_def divide_inverse mult_1)
  also have "\<dots> \<le> (1 + u) * 100 * u"
    using dle u by (intro mult_right_mono) simp_all
  also have "\<dots> \<le> 101 * u"
  proof -
    have "(1 + u) * 100 \<le> 101" using u100 by (simp add: algebra_simps)
    with u show ?thesis by (intro mult_right_mono) simp_all
  qed
  finally have 1: "\<bar>roundDouble (d * 100) - d * 100\<bar> \<le> 101 * u" .
  have 2: "\<bar>d * 100 - x * 100\<bar> \<le> 100 * u"
    using dx by linarith
  have "\<bar>roundDouble (d * 100) - x * 100\<bar> \<le> 201 * u"
    using 1 2 by linarith
  then show ?thesis by (simp add: d_def x_def u_def)
qed

text \<open>
  A number closer than \<open>1 / D\<close> to a fraction with denominator \<open>D\<close> has the floor of the
  fraction, or one less when the fraction is a whole number.
\<close>

lemma floor_near_fraction:
  fixes y z :: rat
  assumes D: "0 < D" and z: "z = of_int m / of_int D" and near: "\<bar>y - z\<bar> < 1 / of_int D"
  shows "\<lfloor>y\<rfloor> \<le> \<lfloor>z\<rfloor>" and "\<lfloor>z\<rfloor> - 1 \<le> \<lfloor>y\<rfloor>" and "z \<notin> \<int> \<Longrightarrow> \<lfloor>y\<rfloor> = \<lfloor>z\<rfloor>"
proof -
  define n where "n = m div D"
  define r where "r = m mod D"
  have Dr: "(0::rat) < of_int D" using D by simp
  have r: "0 \<le> r" "r < D" using D by (simp_all add: r_def)
  have m: "m = n * D + r" by (simp add: n_def r_def)
  have zn: "z = of_int n + of_int r / of_int D"
    using Dr by (simp add: z m field_simps)
  have fz: "\<lfloor>z\<rfloor> = n"
    unfolding z n_def by (rule floor_divide_of_int_eq)
  have r1: "(of_int r :: rat) / of_int D + 1 / of_int D \<le> 1"
  proof -
    from r have "r + 1 \<le> D" by simp
    then have "(of_int (r + 1) :: rat) \<le> of_int D" by (simp only: of_int_le_iff)
    with Dr show ?thesis by (simp add: field_simps)
  qed
  have r0: "(0::rat) \<le> of_int r / of_int D"
    using r Dr by simp
  have D1: "(1::rat) / of_int D \<le> 1"
  proof -
    from D have "1 \<le> D" by simp
    then have "(1::rat) \<le> of_int D" by (simp only: of_int_1_le_iff)
    with Dr show ?thesis by (simp add: field_simps)
  qed
  from near have up: "y < z + 1 / of_int D" and lo: "z - 1 / of_int D < y" by linarith+
  from up zn r1 have "y < of_int (n + 1)" by simp
  then have "\<lfloor>y\<rfloor> < n + 1" by (simp only: floor_less_iff)
  then show "\<lfloor>y\<rfloor> \<le> \<lfloor>z\<rfloor>" by (simp add: fz)
  from lo zn r0 D1 have "of_int (n - 1) \<le> y" by simp
  then have "n - 1 \<le> \<lfloor>y\<rfloor>" by (simp only: le_floor_iff)
  then show "\<lfloor>z\<rfloor> - 1 \<le> \<lfloor>y\<rfloor>" by (simp add: fz)
  show "\<lfloor>y\<rfloor> = \<lfloor>z\<rfloor>" if "z \<notin> \<int>"
  proof -
    have "r \<noteq> 0"
    proof
      assume "r = 0"
      then have "z = of_int n" by (simp add: zn)
      with that show False by simp
    qed
    with r have "1 \<le> r" by simp
    then have "(1::rat) \<le> of_int r" by (simp only: of_int_1_le_iff)
    with Dr have "(1::rat) / of_int D \<le> of_int r / of_int D"
      by (simp add: divide_right_mono)
    with lo zn have "of_int n \<le> y" by simp
    then have "n \<le> \<lfloor>y\<rfloor>" by (simp only: le_floor_iff)
    with \<open>\<lfloor>y\<rfloor> < n + 1\<close> show ?thesis by (simp add: fz)
  qed
qed

text \<open>
  The percentage read as exact arithmetic: \<open>round(a / t * 100)\<close> with halves rounded up.
\<close>

definition exactPercent :: "nat \<Rightarrow> nat \<Rightarrow> int" where
  "exactPercent a t = \<lfloor>(of_nat a / of_nat t * 100 :: rat) + 1 / 2\<rfloor>"

lemma percent_exactPercent:
  assumes t: "0 < t" and a: "a \<le> t" and small: "t < 2 ^ 32"
  shows "percent a t \<le> exactPercent a t"
    and "exactPercent a t - 1 \<le> percent a t"
    and "(of_nat a / of_nat t * 100 :: rat) + 1 / 2 \<notin> \<int> \<Longrightarrow> percent a t = exactPercent a t"
proof -
  define y where "y = roundDouble (toDouble (int a) (int t) * 100)"
  define z :: rat where "z = of_nat a / of_nat t * 100 + 1 / 2"
  have D: "0 < 2 * int t" using t by simp
  have tr: "(0::rat) < of_nat t" using t by simp
  have zf: "z = of_int (200 * int a + int t) / of_int (2 * int t)"
    using tr by (simp add: z_def field_simps)
  have "\<bar>y - of_nat a / of_nat t * 100\<bar> \<le> 201 / 2 ^ 53"
    unfolding y_def by (rule product_error [OF t a])
  moreover have "(201::rat) / 2 ^ 53 < 1 / of_int (2 * int t)"
  proof -
    from small have "int t < 2 ^ 32" by (metis of_nat_less_iff of_nat_numeral of_nat_power)
    then have "(of_int (int t) :: rat) < of_int (2 ^ 32)" by (simp only: of_int_less_iff)
    then have "(of_nat t :: rat) < 2 ^ 32" by simp
    with tr show ?thesis by (simp add: field_simps)
  qed
  ultimately have near: "\<bar>(y + 1 / 2) - z\<bar> < 1 / of_int (2 * int t)"
    by (simp add: z_def)
  have p: "percent a t = \<lfloor>y + 1 / 2\<rfloor>"
    by (simp add: percent_def Math_round_def y_def)
  have e: "exactPercent a t = \<lfloor>z\<rfloor>"
    by (simp add: exactPercent_def z_def)
  show "percent a t \<le> exactPercent a t"
    unfolding p e by (rule floor_near_fraction(1) [OF D zf near])
  show "exactPercent a t - 1 \<le> percent a t"
    unfolding p e by (rule floor_near_fraction(2) [OF D zf near])
  show "percent a t = exactPercent a t" if "(of_nat a / of_nat t * 100 :: rat) + 1 / 2 \<notin> \<int>"
    unfolding p e using that by (intro floor_near_fraction(3) [OF D zf near]) (simp add: z_def)
qed

section \<open>The milestone report: properties\<close>

text \<open>The rows of a report, and those with a given alignment status.\<close>

definition reportRows :: "reportOptions \<Rightarrow> taskResult list" where
  "reportRows options = (case o_taskResults options of None \<Rightarrow> [] | Some rs \<Rightarrow> rs)"

definition rowsWithStatus :: "string \<Rightarrow> taskResult list \<Rightarrow> taskResult list" where
  "rowsWithStatus s rs = filter (\<lambda>r. alignmentStatus r = Some s) rs"

lemma score_generateMilestoneReport:
  "score (summary (generateMilestoneReport now options)) =
     (if reportRows options = [] then 0
      else percent (length (rowsWithStatus ''aligned'' (reportRows options)))
             (length (reportRows options)))"
  by (simp add: generateMilestoneReport_def Let_def reportRows_def rowsWithStatus_def)

lemma report_status_generateMilestoneReport:
  "report_status (generateMilestoneReport now options) =
     (if score (summary (generateMilestoneReport now options)) \<ge> 90 then ''aligned''
      else if score (summary (generateMilestoneReport now options)) \<ge> 70 then ''partial''
      else ''misaligned'')"
  by (simp add: generateMilestoneReport_def Let_def)

lemma recommendations_generateMilestoneReport:
  "recommendations (generateMilestoneReport now options) =
     (if rowsWithStatus ''misaligned'' (reportRows options) = [] then []
      else [\<lparr>rec_type = ''fix-misaligned'', priority = ''high'',
              rec_message = ''Review and fix ''
                @ String_nat (length (rowsWithStatus ''misaligned'' (reportRows options)))
                @ '' misaligned task(s): ''
                @ join '', '' (map resultId (rowsWithStatus ''misaligned'' (reportRows options)))\<rparr>])
     @ (if score (summary (generateMilestoneReport now options)) < 80
        then [\<lparr>rec_type = ''improve-alignment'', priority = ''medium'',
               rec_message = ''Alignment score ''
                 @ String_int (score (summary (generateMilestoneReport now options)))
                 @ ''% is below 80% target''\<rparr>]
        else [])"
  by (simp add: generateMilestoneReport_def Let_def reportRows_def rowsWithStatus_def)

text \<open>
  C9 (amended). For every set of task results: the score is
  \<open>Math.round((aligned / total) * 100)\<close> computed in double precision (0 for an empty
  set). For fewer than \<open>2 ^ 32\<close> results it is the percentage \<open>aligned / total * 100\<close>
  rounded to the nearest integer whenever that percentage is not halfway between two
  integers, and on such a half it is the upper or the lower of the two. The status is
  \<open>aligned\<close> from 90, \<open>partial\<close> from 70 to below 90 and \<open>misaligned\<close> below 70; the
  recommendations are one \<open>high\<close> entry that lists the ids of all misaligned results when
  there is one, followed by one \<open>medium\<close> entry exactly when the score is below 80.
\<close>

theorem generateMilestoneReport_score_nearest_percent:
  fixes now :: string and options :: reportOptions
  defines "rep \<equiv> generateMilestoneReport now options"
  defines "rs \<equiv> reportRows options"
  defines "sc \<equiv> score (summary (generateMilestoneReport now options))"
  defines "aligned \<equiv> length (rowsWithStatus ''aligned'' (reportRows options))"
  shows "(rs \<noteq> [] \<longrightarrow> sc = percent aligned (length rs))
       \<and> (rs = [] \<longrightarrow> sc = 0)
       \<and> (rs \<noteq> [] \<and> length rs < 2 ^ 32 \<longrightarrow>
            exactPercent aligned (length rs) - 1 \<le> sc \<and> sc \<le> exactPercent aligned (length rs)
            \<and> ((of_nat aligned / of_nat (length rs) * 100 :: rat) + 1 / 2 \<notin> \<int>
                 \<longrightarrow> sc = exactPercent aligned (length rs)))
       \<and> (sc \<ge> 90 \<longrightarrow> report_status rep = ''aligned'')
       \<and> (70 \<le> sc \<and> sc < 90 \<longrightarrow> report_status rep = ''partial'')
       \<and> (sc < 70 \<longrightarrow> report_status rep = ''misaligned'')
       \<and> recommendations rep =
            (if rowsWithStatus ''misaligned'' rs = [] then []
             else [\<lparr>rec_type = ''fix-misaligned'', priority = ''high'',
                     rec_message = ''Review and fix ''
                       @ String_nat (length (rowsWithStatus ''misaligned'' rs))
                       @ '' misaligned task(s): ''
                       @ join '', '' (map resultId (rowsWithStatus ''misaligned'' rs))\<rparr>])
            @ (if sc < 80
               then [\<lparr>rec_type = ''improve-alignment'', priority = ''medium'',
                      rec_message = ''Alignment score '' @ String_int sc
                        @ ''% is below 80% target''\<rparr>]
               else [])
       \<and> length (filter (\<lambda>r. priority r = ''high'') (recommendations rep)) =
            (if rowsWithStatus ''misaligned'' rs = [] then 0 else 1)
       \<and> length (filter (\<lambda>r. priority r = ''medium'') (recommendations rep)) =
            (if sc < 80 then 1 else 0)"
proof -
  have le: "aligned \<le> length rs"
    unfolding aligned_def rs_def rowsWithStatus_def by (rule length_filter_le)
  have s1: "rs \<noteq> [] \<longrightarrow> sc = percent aligned (length rs)"
    and s0: "rs = [] \<longrightarrow> sc = 0"
    unfolding rs_def sc_def aligned_def by (simp_all add: score_generateMilestoneReport)
  have near: "rs \<noteq> [] \<and> length rs < 2 ^ 32 \<longrightarrow>
            exactPercent aligned (length rs) - 1 \<le> sc \<and> sc \<le> exactPercent aligned (length rs)
            \<and> ((of_nat aligned / of_nat (length rs) * 100 :: rat) + 1 / 2 \<notin> \<int>
                 \<longrightarrow> sc = exactPercent aligned (length rs))"
  proof (intro impI, elim conjE)
    assume ne: "rs \<noteq> []" and small: "length rs < 2 ^ 32"
    from ne have pos: "0 < length rs" by simp
    from ne s1 have sc: "sc = percent aligned (length rs)" by simp
    show "exactPercent aligned (length rs) - 1 \<le> sc \<and> sc \<le> exactPercent aligned (length rs)
            \<and> ((of_nat aligned / of_nat (length rs) * 100 :: rat) + 1 / 2 \<notin> \<int>
                 \<longrightarrow> sc = exactPercent aligned (length rs))"
      unfolding sc
      using percent_exactPercent(1) [OF pos le small] percent_exactPercent(2) [OF pos le small]
        percent_exactPercent(3) [OF pos le small]
      by (intro conjI impI)
  qed
  have st: "(sc \<ge> 90 \<longrightarrow> report_status rep = ''aligned'')"
    "(70 \<le> sc \<and> sc < 90 \<longrightarrow> report_status rep = ''partial'')"
    "(sc < 70 \<longrightarrow> report_status rep = ''misaligned'')"
    unfolding rep_def sc_def by (simp_all add: report_status_generateMilestoneReport)
  have rc: "recommendations rep =
            (if rowsWithStatus ''misaligned'' rs = [] then []
             else [\<lparr>rec_type = ''fix-misaligned'', priority = ''high'',
                     rec_message = ''Review and fix ''
                       @ String_nat (length (rowsWithStatus ''misaligned'' rs))
                       @ '' misaligned task(s): ''
                       @ join '', '' (map resultId (rowsWithStatus ''misaligned'' rs))\<rparr>])
            @ (if sc < 80
               then [\<lparr>rec_type = ''improve-alignment'', priority = ''medium'',
                      rec_message = ''Alignment score '' @ String_int sc
                        @ ''% is below 80% target''\<rparr>]
               else [])"
    unfolding rep_def rs_def sc_def by (simp add: recommendations_generateMilestoneReport)
  have hi: "length (filter (\<lambda>r. priority r = ''high'') (recommendations rep)) =
            (if rowsWithStatus ''misaligned'' rs = [] then 0 else 1)"
    and me: "length (filter (\<lambda>r. priority r = ''medium'') (recommendations rep)) =
            (if sc < 80 then 1 else 0)"
    unfolding rc by simp_all
  show ?thesis
    by (intro conjI) (fact s1 s0 near st rc hi me)+
qed

definition row :: "string \<Rightarrow> string \<Rightarrow> taskResult" where
  "row i st =
     \<lparr>r_id = Some i, r_taskId = None,
      r_alignment = Some \<lparr>status = Some st, al_reason = None, al_issues = None,
                          al_details = None\<rparr>,
      r_goalTags = None\<rparr>"

definition reportOf :: "taskResult list \<Rightarrow> reportOptions" where
  "reportOf rs = \<lparr>o_taskResults = Some rs, o_goals = None, o_milestoneName = None\<rparr>"

lemma percent_values:
  "percent 1 3 = 33" "percent 3 4 = 75" "percent 1 1 = 100" "percent 1 2 = 50"
  by code_simp+

lemma percent_Suc_values:
  "percent (Suc 0) (Suc (Suc (Suc 0))) = 33"
  "percent (Suc (Suc (Suc 0))) (Suc (Suc (Suc (Suc 0)))) = 75"
  "percent (Suc 0) (Suc 0) = 100"
  "percent (Suc 0) (Suc (Suc 0)) = 50"
  using percent_values by (simp_all add: eval_nat_numeral)

text \<open>
  Double rounding is visible in the score: 23 aligned results of 40 are 57.5 percent, the
  product computed in double precision lies just below, and the score is 57.
\<close>

lemma percent_23_of_40: "percent 23 40 = 57"
  by code_simp

lemma String_nat_values: "String_nat 1 = ''1''" "String_nat 33 = ''33''" "String_nat 0 = ''0''"
  "String_nat 75 = ''75''" "String_nat (Suc 0) = ''1''"
  by code_simp+

lemma exactPercent_values:
  "exactPercent 2 3 = 67" "exactPercent 23 40 = 58" "exactPercent 1 8 = 13"
  by code_simp+

lemma percent_more_values: "percent 2 3 = 67" "percent 1 8 = 13"
  by code_simp+

lemma percent_more_Suc_values:
  "percent (Suc (Suc 0)) (Suc (Suc (Suc 0))) = 67"
  using percent_more_values(1) by (simp add: eval_nat_numeral)

lemma two_thirds_not_half: "(of_nat 2 / of_nat 3 * 100 :: rat) + 1 / 2 \<notin> \<int>"
proof
  assume "(of_nat 2 / of_nat 3 * 100 :: rat) + 1 / 2 \<in> \<int>"
  then have "frac ((of_nat 2 / of_nat 3 * 100 :: rat) + 1 / 2) = 0"
    by (simp only: frac_eq_0_iff)
  moreover have "\<lfloor>403 / 6 :: rat\<rfloor> = 67" by code_simp
  ultimately show False by (simp add: frac_def)
qed

lemma String_nat_67: "String_nat 67 = ''67''" "String_nat 57 = ''57''"
  by code_simp+

theorem generateMilestoneReport_score_witness:
  "reportRows (reportOf [row ''1'' ''aligned'', row ''2'' ''aligned'', row ''3'' ''misaligned'']) \<noteq> []
   \<and> length (reportRows
        (reportOf [row ''1'' ''aligned'', row ''2'' ''aligned'', row ''3'' ''misaligned''])) < 2 ^ 32
   \<and> (of_nat 2 / of_nat 3 * 100 :: rat) + 1 / 2 \<notin> \<int>
   \<and> exactPercent 2 3 = 67
   \<and> score (summary (generateMilestoneReport ''now''
         (reportOf [row ''1'' ''aligned'', row ''2'' ''aligned'', row ''3'' ''misaligned'']))) = 67
   \<and> report_status (generateMilestoneReport ''now''
         (reportOf [row ''1'' ''aligned'', row ''2'' ''aligned'', row ''3'' ''misaligned''])) = ''misaligned''
   \<and> recommendations (generateMilestoneReport ''now''
         (reportOf [row ''1'' ''aligned'', row ''2'' ''aligned'', row ''3'' ''misaligned''])) =
       [\<lparr>rec_type = ''fix-misaligned'', priority = ''high'',
         rec_message = ''Review and fix 1 misaligned task(s): 3''\<rparr>,
        \<lparr>rec_type = ''improve-alignment'', priority = ''medium'',
         rec_message = ''Alignment score 67% is below 80% target''\<rparr>]
   \<and> reportRows (reportOf []) = []
   \<and> score (summary (generateMilestoneReport ''now'' (reportOf []))) = 0
   \<and> score (summary (generateMilestoneReport ''now''
         (reportOf [row ''1'' ''aligned'', row ''2'' ''aligned'', row ''3'' ''aligned'',
                    row ''4'' ''error'']))) = 75
   \<and> report_status (generateMilestoneReport ''now''
         (reportOf [row ''1'' ''aligned'', row ''2'' ''aligned'', row ''3'' ''aligned'',
                    row ''4'' ''error''])) = ''partial''
   \<and> score (summary (generateMilestoneReport ''now'' (reportOf [row ''1'' ''aligned'']))) = 100
   \<and> report_status (generateMilestoneReport ''now'' (reportOf [row ''1'' ''aligned''])) = ''aligned''
   \<and> recommendations (generateMilestoneReport ''now'' (reportOf [row ''1'' ''aligned''])) = []"
  using generateMilestoneReport_score_nearest_percent
      [of "reportOf [row ''1'' ''aligned'', row ''2'' ''aligned'', row ''3'' ''misaligned'']" "''now''"]
    generateMilestoneReport_score_nearest_percent [of "reportOf []" "''now''"]
    generateMilestoneReport_score_nearest_percent
      [of "reportOf [row ''1'' ''aligned'', row ''2'' ''aligned'', row ''3'' ''aligned'',
                     row ''4'' ''error'']" "''now''"]
    generateMilestoneReport_score_nearest_percent
      [of "reportOf [row ''1'' ''aligned'']" "''now''"]
    two_thirds_not_half
  by (simp add: reportOf_def reportRows_def rowsWithStatus_def row_def alignmentStatus_def
      resultId_def truthy_def percent_Suc_values percent_more_Suc_values String_nat_values
      String_nat_67 String_int_def exactPercent_values)

text \<open>
  C9 as stated fails on a half: with 23 aligned results of 40 the percentage is 57.5,
  which rounds to 58; the quotient computed in double precision times 100 lies just below
  57.5 and the score is 57.
\<close>

definition rows40 :: "taskResult list" where
  "rows40 = replicate 23 (row ''a'' ''aligned'') @ replicate 17 (row ''m'' ''misaligned'')"

theorem generateMilestoneReport_half_percent_counterexample:
  "length (reportRows (reportOf rows40)) = 40
   \<and> length (rowsWithStatus ''aligned'' (reportRows (reportOf rows40))) = 23
   \<and> (of_nat 23 / of_nat 40 * 100 :: rat) = 115 / 2
   \<and> exactPercent 23 40 = 58
   \<and> score (summary (generateMilestoneReport ''now'' (reportOf rows40))) = 57
   \<and> report_status (generateMilestoneReport ''now'' (reportOf rows40)) = ''misaligned''"
proof -
  have l: "length (reportRows (reportOf rows40)) = 40"
    by (simp add: reportOf_def reportRows_def rows40_def)
  have a: "length (rowsWithStatus ''aligned'' (reportRows (reportOf rows40))) = 23"
    by (simp add: reportOf_def reportRows_def rows40_def rowsWithStatus_def row_def
        alignmentStatus_def)
  have ne: "reportRows (reportOf rows40) \<noteq> []"
    using l by auto
  have s: "score (summary (generateMilestoneReport ''now'' (reportOf rows40))) = 57"
    using ne by (simp add: score_generateMilestoneReport l a percent_23_of_40)
  have st: "report_status (generateMilestoneReport ''now'' (reportOf rows40)) = ''misaligned''"
    by (simp add: report_status_generateMilestoneReport s)
  have e: "exactPercent 23 40 = 58" by (rule exactPercent_values)
  have f: "(of_nat 23 / of_nat 40 * 100 :: rat) = 115 / 2" by simp
  show ?thesis by (intro conjI) (fact l a f e s st)+
qed

section \<open>A failed alignment check in the summary and in the report\<close>

definition erroredAlignment :: "string \<Rightarrow> alignment" where
  "erroredAlignment msg =
     \<lparr>status = Some ''error'', al_reason = Some msg, al_issues = None, al_details = None\<rparr>"

text \<open>
  The denominator the specification describes for the alignment rate: the completed tasks
  whose check was carried out (neither \<open>error\<close> nor \<open>not-checked\<close>).
\<close>

definition checkedTasks :: "completedTask list \<Rightarrow> completedTask list" where
  "checkedTasks cs =
     filter (\<lambda>c. completedStatus c \<noteq> Some ''error'' \<and> completedStatus c \<noteq> Some ''not-checked'') cs"

lemma completedTasks_dispatchAndMonitor_success:
  assumes "dispatch t (map (\<lambda>c. task_id (ct_task c)) (completedTasks m)) = dr"
    and "dr_success dr" and "success (dr_result dr)"
  shows "completedTasks (snd (dispatchAndMonitor dispatch ov t m)) =
           completedTasks m @ [\<lparr>ct_task = t,
              ct_alignment = Some (runOversightCheck ov t (dr_result dr))\<rparr>]"
  using assms by (simp add: dispatchAndMonitor_def Let_def)

lemma generateSummary_append:
  "alignedTasks (generateSummary (m\<lparr>completedTasks := cs\<rparr>)) =
     length (filter (\<lambda>c. completedStatus c = Some ''aligned'') cs)"
  "misalignedTasks (generateSummary (m\<lparr>completedTasks := cs\<rparr>)) =
     length (filter (\<lambda>c. completedStatus c = Some ''misaligned'') cs)"
  by (simp_all add: generateSummary_def Let_def)

text \<open>
  C5 (amended). When the oversight agent throws on a task that was dispatched and
  succeeded, the check returns the status \<open>error\<close> with the message (not
  \<open>misaligned\<close>) instead of failing, the task is appended to the completed tasks with
  that alignment, it counts neither as aligned nor as misaligned, and it is counted in the
  denominator of the alignment rate, which is the number of completed tasks. In the
  milestone report a result with status \<open>error\<close> has a detail row with that status, is
  not among the misaligned ones, and is counted in the total that divides the score.
\<close>

theorem errored_check_is_recorded_and_counted:
  fixes dispatch :: "task \<Rightarrow> string option list \<Rightarrow> dispatchResult"
    and check :: oversight and m :: teamManager and t :: task
    and options :: reportOptions and r :: taskResult and now :: string
  assumes dr: "dispatch t (map (\<lambda>c. task_id (ct_task c)) (completedTasks m)) = dr"
    and ok: "dr_success dr" "success (dr_result dr)"
    and thrown: "check t (dr_result dr) = Inl msg"
    and r: "r \<in> set (reportRows options)" "alignmentStatus r = Some ''error''"
  defines "m' \<equiv> snd (dispatchAndMonitor dispatch (Some check) t m)"
  defines "rep \<equiv> generateMilestoneReport now options"
  shows "runOversightCheck (Some check) t (dr_result dr) = erroredAlignment msg
       \<and> status (erroredAlignment msg) \<noteq> Some ''misaligned''
       \<and> completedTasks m' =
            completedTasks m @ [\<lparr>ct_task = t, ct_alignment = Some (erroredAlignment msg)\<rparr>]
       \<and> alignedTasks (generateSummary m') = alignedTasks (generateSummary m)
       \<and> misalignedTasks (generateSummary m') = misalignedTasks (generateSummary m)
       \<and> sum_completedTasks (generateSummary m') = length (completedTasks m) + 1
       \<and> alignmentRate (generateSummary m') =
            percent (alignedTasks (generateSummary m)) (length (completedTasks m) + 1)
       \<and> \<lparr>d_id = resultId r, d_status = ''error'',
           d_issues = (case r_alignment r of None \<Rightarrow> 0
                       | Some a \<Rightarrow> (case al_issues a of None \<Rightarrow> 0 | Some xs \<Rightarrow> length xs))\<rparr>
            \<in> set (report_details rep)
       \<and> r \<notin> set (rowsWithStatus ''misaligned'' (reportRows options))
       \<and> s_totalTasks (summary rep) = length (reportRows options)
       \<and> score (summary rep) =
            percent (length (rowsWithStatus ''aligned'' (reportRows options)))
              (length (reportRows options))"
proof -
  have a: "runOversightCheck (Some check) t (dr_result dr) = erroredAlignment msg"
    by (simp add: runOversightCheck_def thrown erroredAlignment_def)
  have c: "completedTasks m' =
            completedTasks m @ [\<lparr>ct_task = t, ct_alignment = Some (erroredAlignment msg)\<rparr>]"
    unfolding m'_def
    using completedTasks_dispatchAndMonitor_success [of dispatch t m dr "Some check"] dr ok
    by (simp add: a)
  have s: "completedStatus \<lparr>ct_task = t, ct_alignment = Some (erroredAlignment msg)\<rparr> = Some ''error''"
    by (simp add: completedStatus_def erroredAlignment_def)
  have al: "alignedTasks (generateSummary m') = alignedTasks (generateSummary m)"
    and mis: "misalignedTasks (generateSummary m') = misalignedTasks (generateSummary m)"
    and cnt: "sum_completedTasks (generateSummary m') = length (completedTasks m) + 1"
    by (simp_all add: generateSummary_def Let_def c s)
  have rate: "alignmentRate (generateSummary m') =
            percent (alignedTasks (generateSummary m)) (length (completedTasks m) + 1)"
    by (simp add: generateSummary_def Let_def c s)
  have det: "\<lparr>d_id = resultId r, d_status = ''error'',
           d_issues = (case r_alignment r of None \<Rightarrow> 0
                       | Some a \<Rightarrow> (case al_issues a of None \<Rightarrow> 0 | Some xs \<Rightarrow> length xs))\<rparr>
            \<in> set (report_details rep)"
    unfolding rep_def using r
    by (force simp: generateMilestoneReport_def Let_def reportRows_def truthy_def)
  have notmis: "r \<notin> set (rowsWithStatus ''misaligned'' (reportRows options))"
    using r by (simp add: rowsWithStatus_def)
  have tot: "s_totalTasks (summary rep) = length (reportRows options)"
    unfolding rep_def by (simp add: generateMilestoneReport_def Let_def reportRows_def)
  have sc: "score (summary rep) =
            percent (length (rowsWithStatus ''aligned'' (reportRows options)))
              (length (reportRows options))"
    unfolding rep_def using r(1) by (auto simp: score_generateMilestoneReport)
  show ?thesis
    using a c al mis cnt rate det notmis tot sc by (simp add: erroredAlignment_def)
qed

text \<open>
  One task whose check returns \<open>aligned\<close> and one whose check throws, on a plan of two
  tasks.
\<close>

definition alwaysSucceeds :: "task \<Rightarrow> string option list \<Rightarrow> dispatchResult" where
  "alwaysSucceeds t done =
     \<lparr>dr_success = True, dr_error = [], dr_result = \<lparr>success = True, o_error = []\<rparr>\<rparr>"

definition throwsOnSecond :: oversight where
  "throwsOnSecond t result =
     (if task_id t = Some ''2'' then Inl ''analysis failed''
      else Inr \<lparr>status = Some ''aligned'', al_reason = None, al_issues = None,
                al_details = None\<rparr>)"

definition afterFirst :: teamManager where
  "afterFirst =
     snd (dispatchAndMonitor alwaysSucceeds (Some throwsOnSecond) (mkTask ''1'' [])
            (newTeamManager (Some [mkTask ''1'' [], mkTask ''2'' []])))"

definition afterSecond :: teamManager where
  "afterSecond =
     snd (dispatchAndMonitor alwaysSucceeds (Some throwsOnSecond) (mkTask ''2'' []) afterFirst)"

lemma task_id_mkTask: "task_id (mkTask i ds) = Some i"
  by (simp add: mkTask_def)

lemma completedTasks_afterFirst:
  "completedTasks afterFirst =
     [\<lparr>ct_task = mkTask ''1'' [],
       ct_alignment = Some \<lparr>status = Some ''aligned'', al_reason = None, al_issues = None,
                             al_details = None\<rparr>\<rparr>]"
  by (simp add: afterFirst_def dispatchAndMonitor_def alwaysSucceeds_def Let_def
      runOversightCheck_def throwsOnSecond_def task_id_mkTask newTeamManager_def)

lemma completedTasks_afterSecond:
  "completedTasks afterSecond =
     [\<lparr>ct_task = mkTask ''1'' [],
       ct_alignment = Some \<lparr>status = Some ''aligned'', al_reason = None, al_issues = None,
                             al_details = None\<rparr>\<rparr>,
      \<lparr>ct_task = mkTask ''2'' [], ct_alignment = Some (erroredAlignment ''analysis failed'')\<rparr>]"
  by (simp add: afterSecond_def dispatchAndMonitor_def alwaysSucceeds_def Let_def
      runOversightCheck_def throwsOnSecond_def task_id_mkTask completedTasks_afterFirst
      erroredAlignment_def)

lemma generateSummary_afterSecond:
  "alignedTasks (generateSummary afterSecond) = 1"
  "misalignedTasks (generateSummary afterSecond) = 0"
  "alignmentRate (generateSummary afterSecond) = 50"
  by (simp_all add: generateSummary_def Let_def completedTasks_afterSecond completedStatus_def
      erroredAlignment_def percent_Suc_values)

lemma score_aligned_and_errored:
  "score (summary (generateMilestoneReport ''now''
        (reportOf [row ''1'' ''aligned'', row ''2'' ''error'']))) = 50"
  by (simp add: score_generateMilestoneReport reportOf_def reportRows_def rowsWithStatus_def
      row_def alignmentStatus_def percent_Suc_values)

theorem errored_check_witness:
  "alwaysSucceeds (mkTask ''2'' []) (map (\<lambda>c. task_id (ct_task c)) (completedTasks afterFirst))
     = \<lparr>dr_success = True, dr_error = [], dr_result = \<lparr>success = True, o_error = []\<rparr>\<rparr>
   \<and> throwsOnSecond (mkTask ''2'' []) \<lparr>success = True, o_error = []\<rparr> = Inl ''analysis failed''
   \<and> row ''2'' ''error'' \<in> set (reportRows (reportOf [row ''1'' ''aligned'', row ''2'' ''error'']))
   \<and> alignmentStatus (row ''2'' ''error'') = Some ''error''
   \<and> length (completedTasks afterSecond) = 2
   \<and> alignedTasks (generateSummary afterSecond) = 1
   \<and> misalignedTasks (generateSummary afterSecond) = 0
   \<and> alignmentRate (generateSummary afterSecond) = 50
   \<and> score (summary (generateMilestoneReport ''now''
        (reportOf [row ''1'' ''aligned'', row ''2'' ''error'']))) = 50"
  using errored_check_is_recorded_and_counted
    [of alwaysSucceeds "mkTask ''2'' []" afterFirst
        "\<lparr>dr_success = True, dr_error = [], dr_result = \<lparr>success = True, o_error = []\<rparr>\<rparr>"
        throwsOnSecond "''analysis failed''" "row ''2'' ''error''"
        "reportOf [row ''1'' ''aligned'', row ''2'' ''error'']" "''now''"]
  by (simp add: alwaysSucceeds_def throwsOnSecond_def task_id_mkTask
      reportOf_def reportRows_def row_def alignmentStatus_def
      completedTasks_afterSecond generateSummary_afterSecond
      score_aligned_and_errored [unfolded reportOf_def row_def])

text \<open>
  C5 as stated fails: with one aligned task and one task whose check threw, the reported
  alignment rate is 50; leaving the errored task out of the denominator would give 100.
\<close>

theorem errored_check_in_denominator_counterexample:
  "map completedStatus (completedTasks afterSecond) = [Some ''aligned'', Some ''error'']
   \<and> alignmentRate (generateSummary afterSecond) = 50
   \<and> percent (alignedTasks (generateSummary afterSecond))
        (length (checkedTasks (completedTasks afterSecond))) = 100"
  by (simp add: completedTasks_afterSecond generateSummary_afterSecond completedStatus_def
      checkedTasks_def erroredAlignment_def percent_Suc_values)

end
